theory Spec2Isabelle
  imports Main "HOL-Library.Multiset"
begin

section \<open>Paths\<close>

text \<open>
  A \<^verbatim>\<open>pathlib.Path\<close> is its list of components; the empty list is \<^verbatim>\<open>Path('.')\<close>.
  Two paths are the same when their components are, character by character.
\<close>

type_synonym path = "string list"

definition name :: "path \<Rightarrow> string" where
  "name p = (if p = [] then [] else last p)"

definition startswith :: "string \<Rightarrow> string \<Rightarrow> bool" where
  "startswith s pre = (take (length pre) s = pre)"

text \<open>\<^verbatim>\<open>str.rfind\<close>: the highest index of the character, or \<open>-1\<close>.\<close>

fun rfind :: "string \<Rightarrow> char \<Rightarrow> int" where
  "rfind [] c = -1"
| "rfind (x # xs) c =
     (let r = rfind xs c in if 0 \<le> r then r + 1 else if x = c then 0 else -1)"

text \<open>
  \<^verbatim>\<open>PurePath.suffix\<close>: the part of the name from its last dot on, unless that dot is the
  first or the last character of the name.
\<close>

definition suffix :: "path \<Rightarrow> string" where
  "suffix p =
     (let nm = name p; i = rfind nm (CHR ''.'')
      in if 0 < i \<and> i < int (length nm) - 1 then drop (nat i) nm else [])"

datatype exn =
    ValueError
  | PermissionError
  | CalledProcessError int string
  | OtherException string

text \<open>
  \<^verbatim>\<open>PurePath.with_suffix\<close>: raises \<^verbatim>\<open>ValueError\<close> on an invalid suffix and on a path with
  an empty name; appends the suffix to a name that has none, replaces the old one
  otherwise.
\<close>

definition with_suffix :: "path \<Rightarrow> string \<Rightarrow> exn + path" where
  "with_suffix p sfx =
     (if CHR ''/'' \<in> set sfx then Inl ValueError
      else if (sfx \<noteq> [] \<and> \<not> startswith sfx ''.'') \<or> sfx = ''.'' then Inl ValueError
      else if name p = [] then Inl ValueError
      else (let old_suffix = suffix p;
                nm = (if old_suffix = [] then name p @ sfx
                      else take (length (name p) - length old_suffix) (name p) @ sfx)
            in Inr (butlast p @ [nm])))"

text \<open>\<^verbatim>\<open>str(path)\<close>: the components joined by the separator.\<close>

fun str_path :: "path \<Rightarrow> string" where
  "str_path [] = ''.''"
| "str_path [x] = x"
| "str_path (x # y # ys) = x @ ''/'' @ str_path (y # ys)"

section \<open>The directory tree\<close>

text \<open>
  The file system as the program sees it, from the working directory down: a file; a
  directory, with whether it may be listed (read permission), whether its entries may be
  reached (search permission), and its entries in the order a scan lists them; or a symbolic
  link, with its target as a path from the top of the tree. Names are looked up character by
  character.
\<close>

datatype node = File | Dir bool bool "(string \<times> node) list" | Link path

text \<open>
  \<^verbatim>\<open>os.stat\<close>, following symbolic links, from a node of the tree \<open>base\<close>. Reaching
  into a directory without search permission raises \<^verbatim>\<open>PermissionError\<close>; a missing entry, a
  file where a directory is needed and more links in a row than the system follows give no
  node: these are the errors \<^verbatim>\<open>Path.exists\<close> and \<^verbatim>\<open>Path.is_dir\<close> take for "no" (pathlib up to
  Python 3.13). Every other error they raise again.
\<close>

fun stat :: "nat \<Rightarrow> node \<Rightarrow> node \<Rightarrow> path \<Rightarrow> exn + node option" where
  "stat 0 base (Link target) cs = Inr None"
| "stat (Suc fuel) base (Link target) cs = stat fuel base base (target @ cs)"
| "stat fuel base File [] = Inr (Some File)"
| "stat fuel base File (c # cs) = Inr None"
| "stat fuel base (Dir r x es) [] = Inr (Some (Dir r x es))"
| "stat fuel base (Dir r x es) (c # cs) =
     (if \<not> x then Inl PermissionError
      else case map_of es c of None \<Rightarrow> Inr None | Some n \<Rightarrow> stat fuel base n cs)"

definition max_links :: nat where
  "max_links = 40"

definition exists :: "node \<Rightarrow> path \<Rightarrow> exn + bool" where
  "exists t p =
     (case stat max_links t t p of
        Inl e \<Rightarrow> Inl e
      | Inr None \<Rightarrow> Inr False
      | Inr (Some n) \<Rightarrow> Inr True)"

definition is_dir :: "node \<Rightarrow> path \<Rightarrow> exn + bool" where
  "is_dir t p =
     (case stat max_links t t p of
        Inl e \<Rightarrow> Inl e
      | Inr (Some (Dir r x es)) \<Rightarrow> Inr True
      | Inr _ \<Rightarrow> Inr False)"

text \<open>
  The flavour of the host's paths decides how a pattern is matched against a name: the
  POSIX flavour compares the characters as they are, the Windows flavour ignores the case
  of letters.
\<close>

datatype flavour = Posix | Windows

definition lower :: "char \<Rightarrow> char" where
  "lower c = (let n = (of_char c :: nat) in if 65 \<le> n \<and> n \<le> 90 then char_of (n + 32) else c)"

definition same_char :: "flavour \<Rightarrow> char \<Rightarrow> char \<Rightarrow> bool" where
  "same_char fl a b = (case fl of Posix \<Rightarrow> a = b | Windows \<Rightarrow> lower a = lower b)"

text \<open>
  \<^verbatim>\<open>fnmatch\<close> on one name, for patterns of literal characters, \<^verbatim>\<open>*\<close> and \<^verbatim>\<open>?\<close>
  (the program's only pattern, \<^verbatim>\<open>*.flac\<close>, has no bracket expression).
\<close>

fun fnmatch :: "flavour \<Rightarrow> string \<Rightarrow> string \<Rightarrow> bool" where
  "fnmatch fl [] [] = True"
| "fnmatch fl [] (c # cs) = False"
| "fnmatch fl (p # ps) [] = (p = CHR ''*'' \<and> fnmatch fl ps [])"
| "fnmatch fl (p # ps) (c # cs) =
     (if p = CHR ''*'' then fnmatch fl ps (c # cs) \<or> fnmatch fl (p # ps) cs
      else (p = CHR ''?'' \<or> same_char fl p c) \<and> fnmatch fl ps cs)"

text \<open>
  \<^verbatim>\<open>Path.rglob\<close> from a directory, relative to it (pathlib up to Python 3.12): the matching
  entries of the directory, then those of each of its subdirectories. A directory that may
  not be listed yields nothing; the subdirectories of a directory without search
  permission cannot be opened and yield nothing; a symbolic link is listed under its name
  and never descended into.
\<close>

fun rglob :: "flavour \<Rightarrow> string \<Rightarrow> node \<Rightarrow> path list" where
  "rglob fl pat File = []"
| "rglob fl pat (Link target) = []"
| "rglob fl pat (Dir r x es) =
     (if \<not> r then []
      else map (\<lambda>(c, n). [c]) (filter (\<lambda>(c, n). fnmatch fl pat c) es) @
           (if \<not> x then []
            else concat (map (\<lambda>(c, n). map ((#) c) (rglob fl pat n)) es)))"

text \<open>
  \<^verbatim>\<open>list(root.rglob('*.flac'))\<close>: \<^verbatim>\<open>rglob\<close> first asks whether the root is a directory,
  and yields nothing when it is not.
\<close>

definition gather_flac_files :: "flavour \<Rightarrow> node \<Rightarrow> path \<Rightarrow> exn + path list" where
  "gather_flac_files fl t root =
     (case stat max_links t t root of
        Inl e \<Rightarrow> Inl e
      | Inr (Some (Dir r x es)) \<Rightarrow> Inr (map ((@) root) (rglob fl ''*.flac'' (Dir r x es)))
      | Inr _ \<Rightarrow> Inr [])"

section \<open>Effects\<close>

text \<open>
  The program touches the outside world in two ways: \<^verbatim>\<open>Path.exists\<close> reads the directory
  tree, and \<^verbatim>\<open>subprocess.run\<close> spawns the external tool, which may change the tree. A
  computation is the tree of these requests; each continuation takes the answer. The answer
  to an existence test is the exception it raised or its truth value. The answer
  to a spawn is either the exception \<^verbatim>\<open>subprocess.run\<close> raised while starting or waiting
  for the child, or the child's return code and captured error stream. The logging calls
  have no result and nothing reads what they print, so they are left out.
  The type \<open>exn\<close> stands for the subclasses of \<^verbatim>\<open>Exception\<close>.
\<close>

datatype 'a io =
    Return 'a
  | Raise exn
  | Exists path "exn + bool \<Rightarrow> 'a io"
  | Run "string list" "exn + int \<times> string \<Rightarrow> 'a io"

primrec bind :: "'a io \<Rightarrow> ('a \<Rightarrow> 'b io) \<Rightarrow> 'b io" where
  "bind (Return x) f = f x"
| "bind (Raise e) f = Raise e"
| "bind (Exists p k) f = Exists p (\<lambda>r. bind (k r) f)"
| "bind (Run c k) f = Run c (\<lambda>r. bind (k r) f)"

text \<open>\<^verbatim>\<open>try: body except Exception as e: handler\<close>.\<close>

primrec try_except :: "'a io \<Rightarrow> (exn \<Rightarrow> 'a io) \<Rightarrow> 'a io" where
  "try_except (Return x) h = Return x"
| "try_except (Raise e) h = h e"
| "try_except (Exists p k) h = Exists p (\<lambda>r. try_except (k r) h)"
| "try_except (Run c k) h = Run c (\<lambda>r. try_except (k r) h)"

definition lift :: "exn + 'a \<Rightarrow> 'a io" where
  "lift r = (case r of Inl e \<Rightarrow> Raise e | Inr x \<Rightarrow> Return x)"

text \<open>\<^verbatim>\<open>path.exists()\<close>: an exception of the test is raised where the call stands.\<close>

definition path_exists :: "path \<Rightarrow> bool io" where
  "path_exists p = Exists p (\<lambda>r. case r of Inl e \<Rightarrow> Raise e | Inr found \<Rightarrow> Return found)"

text \<open>
  \<^verbatim>\<open>subprocess.run(cmd, check=..., capture_output=True, text=True)\<close>: with \<^verbatim>\<open>check\<close> a
  non-zero return code raises \<^verbatim>\<open>CalledProcessError\<close>.
\<close>

definition subprocess_run :: "string list \<Rightarrow> bool \<Rightarrow> (int \<times> string) io" where
  "subprocess_run cmd check =
     Run cmd (\<lambda>r. case r of
        Inl e \<Rightarrow> Raise e
      | Inr (returncode, stderr) \<Rightarrow>
          if check \<and> returncode \<noteq> 0 then Raise (CalledProcessError returncode stderr)
          else Return (returncode, stderr))"

section \<open>The program\<close>

definition cover_cmd :: "path \<Rightarrow> path \<Rightarrow> string list" where
  "cover_cmd flac_path cover_jpg =
     [''ffmpeg'',
      ''-hide_banner'', ''-loglevel'', ''warning'',
      ''-i'', str_path flac_path,
      ''-map'', ''0:v?'',
      ''-c:v'', ''mjpeg'',
      str_path cover_jpg]"

definition extract_cover :: "path \<Rightarrow> bool \<Rightarrow> bool io" where
  "extract_cover flac_path dry_run =
     bind (lift (with_suffix flac_path ''.jpg'')) (\<lambda>cover_jpg.
     bind (path_exists cover_jpg) (\<lambda>found.
       if found then Return False
       else
         (let cmd = cover_cmd flac_path cover_jpg in
          if dry_run then Return True
          else
            try_except
              (bind (subprocess_run cmd True) (\<lambda>_. Return True))
              (\<lambda>e. Return False))))"

definition audio_cmd :: "path \<Rightarrow> path \<Rightarrow> string \<Rightarrow> string list" where
  "audio_cmd flac_path opus_path bitrate =
     [''ffmpeg'',
      ''-hide_banner'', ''-loglevel'', ''warning'',
      ''-f'', ''flac'',
      ''-analyzeduration'', ''10000000'',
      ''-probesize'', ''20000000'',
      ''-i'', str_path flac_path,
      ''-map'', ''0:a'',
      ''-map_metadata'', ''0'',
      ''-c:a'', ''libopus'',
      ''-b:a'', bitrate,
      ''-vbr'', ''on'',
      ''-threads'', ''0'',
      str_path opus_path]"

text \<open>The result is the tuple \<^verbatim>\<open>(converted, skipped, error)\<close>.\<close>

definition convert_file :: "path \<Rightarrow> string \<Rightarrow> bool \<Rightarrow> (bool \<times> bool \<times> bool) io" where
  "convert_file flac_path bitrate dry_run =
     bind (lift (with_suffix flac_path ''.opus'')) (\<lambda>opus_path.
     if startswith (name flac_path) ''._'' then Return (False, True, False)
     else
       bind (path_exists opus_path) (\<lambda>found.
         if found then Return (False, True, False)
         else
           bind (extract_cover flac_path dry_run) (\<lambda>_.
             (let cmd = audio_cmd flac_path opus_path bitrate in
              if dry_run then Return (True, False, False)
              else
                try_except
                  (bind (subprocess_run cmd True) (\<lambda>_. Return (True, False, False)))
                  (\<lambda>e. case e of
                     CalledProcessError returncode stderr \<Rightarrow> Return (False, False, True)
                   | _ \<Rightarrow> Return (False, False, True))))))"

section \<open>Running a computation\<close>

text \<open>
  The world is the flavour of the host's paths, the directory tree and the list of the
  commands spawned so far. The external tool is a parameter: given a command and the tree
  it answers and leaves a tree.
\<close>

record world =
  host :: flavour
  fs :: node
  spawned :: "string list list"

type_synonym tool = "string list \<Rightarrow> node \<Rightarrow> (exn + int \<times> string) \<times> node"

primrec run_io :: "tool \<Rightarrow> 'a io \<Rightarrow> world \<Rightarrow> (exn + 'a) \<times> world" where
  "run_io ffmpeg (Return x) w = (Inr x, w)"
| "run_io ffmpeg (Raise e) w = (Inl e, w)"
| "run_io ffmpeg (Exists p k) w = run_io ffmpeg (k (exists (fs w) p)) w"
| "run_io ffmpeg (Run c k) w =
     (case ffmpeg c (fs w) of
        (r, t) \<Rightarrow> run_io ffmpeg (k r) (w\<lparr>fs := t, spawned := spawned w @ [c]\<rparr>))"

section \<open>The dispatcher\<close>

text \<open>
  The three counters of \<^verbatim>\<open>main\<close>, and the body of its loop over the completed futures:
  \<^verbatim>\<open>future.result()\<close> is either the worker's tuple or the exception the worker raised.
\<close>

record counters =
  converted :: nat
  skipped :: nat
  errors :: nat

definition tally :: "exn + bool \<times> bool \<times> bool \<Rightarrow> counters \<Rightarrow> counters" where
  "tally result cnt =
     (case result of
        Inr (did_convert, did_skip, did_error) \<Rightarrow>
          if did_convert then cnt\<lparr>converted := converted cnt + 1\<rparr>
          else if did_skip then cnt\<lparr>skipped := skipped cnt + 1\<rparr>
          else if did_error then cnt\<lparr>errors := errors cnt + 1\<rparr>
          else cnt
      | Inl exc \<Rightarrow> cnt\<lparr>errors := errors cnt + 1\<rparr>)"

text \<open>
  The pool: the submitted tasks that have not delivered a result yet, in submission order,
  each with what is left of its computation; the delivered results, in completion order;
  and the world the workers share.
\<close>

record pool =
  pending :: "(path \<times> (bool \<times> bool \<times> bool) io) list"
  finished :: "(path \<times> (exn + bool \<times> bool \<times> bool)) list"
  state :: world

text \<open>
  One event of the pool: the task at position \<open>i\<close> of the pending list performs its next
  request, or delivers its result when its computation has ended. With \<open>max_workers\<close>
  workers taking the tasks in submission order, the tasks in flight are among the first
  \<open>max_workers\<close> pending ones; any other event leaves the pool as it is.
\<close>

definition pool_step :: "tool \<Rightarrow> nat \<Rightarrow> nat \<Rightarrow> pool \<Rightarrow> pool" where
  "pool_step ffmpeg max_workers i pl =
     (if i < length (pending pl) \<and> i < max_workers then
        (case pending pl ! i of
           (flac, Return x) \<Rightarrow>
             pl\<lparr>pending := take i (pending pl) @ drop (Suc i) (pending pl),
                finished := finished pl @ [(flac, Inr x)]\<rparr>
         | (flac, Raise e) \<Rightarrow>
             pl\<lparr>pending := take i (pending pl) @ drop (Suc i) (pending pl),
                finished := finished pl @ [(flac, Inl e)]\<rparr>
         | (flac, Exists p k) \<Rightarrow>
             pl\<lparr>pending := (pending pl)[i := (flac, k (exists (fs (state pl)) p))]\<rparr>
         | (flac, Run c k) \<Rightarrow>
             (case ffmpeg c (fs (state pl)) of
                (r, t) \<Rightarrow>
                  pl\<lparr>pending := (pending pl)[i := (flac, k r)],
                     state := (state pl)\<lparr>fs := t, spawned := spawned (state pl) @ [c]\<rparr>\<rparr>))
      else pl)"

text \<open>
  Leaving the \<^verbatim>\<open>with\<close> block waits for every task: when the schedule is used up, the
  tasks still pending run to their end one after the other, in submission order.
\<close>

fun drain :: "tool \<Rightarrow> pool \<Rightarrow> (path \<times> (bool \<times> bool \<times> bool) io) list \<Rightarrow> pool" where
  "drain ffmpeg pl [] = pl\<lparr>pending := []\<rparr>"
| "drain ffmpeg pl ((flac, job) # rest) =
     (case run_io ffmpeg job (state pl) of
        (r, w) \<Rightarrow> drain ffmpeg (pl\<lparr>finished := finished pl @ [(flac, r)], state := w\<rparr>) rest)"

fun run_pool :: "tool \<Rightarrow> nat \<Rightarrow> nat list \<Rightarrow> pool \<Rightarrow> pool" where
  "run_pool ffmpeg max_workers [] pl = drain ffmpeg pl (pending pl)"
| "run_pool ffmpeg max_workers (i # sched) pl =
     run_pool ffmpeg max_workers sched (pool_step ffmpeg max_workers i pl)"

text \<open>
  Lines 132 to 150 of \<^verbatim>\<open>main\<close>: one task per file, the pool run under a schedule, and the
  counters updated once per completed future, in completion order.
\<close>

definition dispatch ::
  "tool \<Rightarrow> nat \<Rightarrow> nat list \<Rightarrow> path list \<Rightarrow> string \<Rightarrow> bool \<Rightarrow> world \<Rightarrow> counters \<times> world" where
  "dispatch ffmpeg max_workers sched flac_list bitrate dry_run w =
     (let worker = (\<lambda>flac. convert_file flac bitrate dry_run);
          pl = run_pool ffmpeg max_workers sched
                 \<lparr>pending = map (\<lambda>flac. (flac, worker flac)) flac_list, finished = [], state = w\<rparr>
      in (foldl (\<lambda>cnt (flac, result). tally result cnt)
            \<lparr>converted = 0, skipped = 0, errors = 0\<rparr> (finished pl),
          state pl))"

section \<open>The entry point\<close>

record args =
  root :: path
  bitrate :: string
  jobs :: int
  dry_run :: bool

text \<open>
  How \<^verbatim>\<open>main\<close> ends: \<^verbatim>\<open>sys.exit(n)\<close>, falling off its end, or an exception nothing
  catches. The interpreter turns the last two into the exit statuses 0 and 1.
\<close>

datatype ending = SysExit int | Returned | Uncaught exn


text \<open>
  What a run leaves: how it ended, the files it discovered (when it came to discover), the
  counters of its summary line (when it came to log one), and the world.
\<close>

record run =
  ending :: ending
  discovered :: "path list option"
  summary :: "counters option"
  after :: world

text \<open>
  \<^verbatim>\<open>main\<close>, from the parsed arguments on. An exception of \<^verbatim>\<open>is_dir\<close> or of the
  discovery is caught nowhere, and \<^verbatim>\<open>ProcessPoolExecutor\<close> raises \<^verbatim>\<open>ValueError\<close> when
  \<^verbatim>\<open>max_workers\<close> is not positive.
\<close>

definition main :: "tool \<Rightarrow> nat list \<Rightarrow> args \<Rightarrow> world \<Rightarrow> run" where
  "main ffmpeg sched a w =
     (case is_dir (fs w) (root a) of
        Inl e \<Rightarrow> \<lparr>ending = Uncaught e, discovered = None, summary = None, after = w\<rparr>
      | Inr False \<Rightarrow> \<lparr>ending = SysExit 1, discovered = None, summary = None, after = w\<rparr>
      | Inr True \<Rightarrow>
        (case gather_flac_files (host w) (fs w) (root a) of
           Inl e \<Rightarrow> \<lparr>ending = Uncaught e, discovered = None, summary = None, after = w\<rparr>
         | Inr flac_list \<Rightarrow>
           (let total = length flac_list
            in if total = 0
               then \<lparr>ending = Returned, discovered = Some flac_list, summary = None, after = w\<rparr>
               else if jobs a \<le> 0
               then \<lparr>ending = Uncaught ValueError, discovered = Some flac_list,
                      summary = None, after = w\<rparr>
               else
                 (case dispatch ffmpeg (nat (jobs a)) sched flac_list (bitrate a) (dry_run a) w of
                    (cnt, w') \<Rightarrow>
                      \<lparr>ending = (if errors cnt > 0 then SysExit 1 else Returned),
                       discovered = Some flac_list, summary = Some cnt, after = w'\<rparr>))))"

section \<open>Vocabulary of the properties\<close>

text \<open>The external tool succeeded: it ran and returned 0.\<close>

definition succeeded :: "exn + int \<times> string \<Rightarrow> bool" where
  "succeeded r = (case r of Inl e \<Rightarrow> False | Inr (returncode, stderr) \<Rightarrow> returncode = 0)"

text \<open>The values a computation can return, whatever the answers to its requests are.\<close>

inductive returns :: "'a io \<Rightarrow> 'a \<Rightarrow> bool" where
  returns_Return: "returns (Return x) x"
| returns_Exists: "returns (k a) x \<Longrightarrow> returns (Exists p k) x"
| returns_Run: "returns (k r) x \<Longrightarrow> returns (Run c k) x"

code_pred returns .

text \<open>
  The three outcomes of a task, and the outcome the loop of \<^verbatim>\<open>main\<close> counts a future as:
  the first true component of a tuple in the order converted, skipped, error; an exception
  counts as an error; a tuple with no true component counts as nothing.
\<close>

datatype outcome = Converted | Skipped | Errored

definition classify :: "exn + bool \<times> bool \<times> bool \<Rightarrow> outcome option" where
  "classify result =
     (case result of
        Inl exc \<Rightarrow> Some Errored
      | Inr (did_convert, did_skip, did_error) \<Rightarrow>
          if did_convert then Some Converted
          else if did_skip then Some Skipped
          else if did_error then Some Errored
          else None)"

definition count_outcome :: "outcome \<Rightarrow> (path \<times> (exn + bool \<times> bool \<times> bool)) list \<Rightarrow> nat" where
  "count_outcome x results = length (filter (\<lambda>(flac, result). classify result = Some x) results)"

text \<open>
  Reasoning about one task among others. The tasks share the directory tree, so a property
  of a task is proved under a rely \<open>R\<close>, the changes of the tree it tolerates between two
  of its own requests, and gives a guarantee \<open>G\<close>, the changes its own spawns make.
  \<open>assured ffmpeg R G Q job t\<close>: started in the tree \<open>t\<close>, with the other tasks changing the
  tree within \<open>R\<close>, every spawn of \<open>job\<close> changes the tree within \<open>G\<close> and its result
  satisfies \<open>Q\<close> in every later tree.
\<close>

primrec assured ::
  "tool \<Rightarrow> (node \<Rightarrow> node \<Rightarrow> bool) \<Rightarrow> (node \<Rightarrow> node \<Rightarrow> bool) \<Rightarrow> (exn + 'a \<Rightarrow> node \<Rightarrow> bool) \<Rightarrow>
   'a io \<Rightarrow> node \<Rightarrow> bool" where
  "assured ffmpeg R G Q (Return x) t = (\<forall>t'. R t t' \<longrightarrow> Q (Inr x) t')"
| "assured ffmpeg R G Q (Raise e) t = (\<forall>t'. R t t' \<longrightarrow> Q (Inl e) t')"
| "assured ffmpeg R G Q (Exists p k) t =
     (\<forall>t'. R t t' \<longrightarrow> assured ffmpeg R G Q (k (exists t' p)) t')"
| "assured ffmpeg R G Q (Run c k) t =
     (\<forall>t'. R t t' \<longrightarrow>
        (case ffmpeg c t' of (r, t'') \<Rightarrow> G t' t'' \<and> assured ffmpeg R G Q (k r) t''))"

text \<open>
  The invariant of the pool: the pending and the delivered tasks together are the submitted
  ones, every pending task is assured of its property, every delivered result has it for
  good, and the world satisfies \<open>W\<close>.
\<close>

definition pool_inv ::
  "tool \<Rightarrow> path list \<Rightarrow> (path \<Rightarrow> node \<Rightarrow> node \<Rightarrow> bool) \<Rightarrow> (path \<Rightarrow> node \<Rightarrow> node \<Rightarrow> bool) \<Rightarrow>
   (path \<Rightarrow> exn + bool \<times> bool \<times> bool \<Rightarrow> node \<Rightarrow> bool) \<Rightarrow> (world \<Rightarrow> bool) \<Rightarrow>
   (path \<times> (bool \<times> bool \<times> bool) io) list \<Rightarrow> (path \<times> (exn + bool \<times> bool \<times> bool)) list \<Rightarrow>
   world \<Rightarrow> bool" where
  "pool_inv ffmpeg L R G Q W pend fin w =
     (mset (map fst pend) + mset (map fst fin) = mset L \<and>
      (\<forall>(p, job) \<in> set pend. assured ffmpeg (R p) (G p) (Q p) job (fs w)) \<and>
      (\<forall>(p, r) \<in> set fin. \<forall>t'. R p (fs w) t' \<longrightarrow> Q p r t') \<and>
      W w)"

text \<open>
  The output and the cover path of a file, as \<^verbatim>\<open>convert_file\<close> and \<^verbatim>\<open>extract_cover\<close>
  derive them (the file itself where \<^verbatim>\<open>with_suffix\<close> raises); the files the policy skips
  in a given tree; and the files whose existence tests all answer there, the test of the
  cover path being reached only when the output path is absent.
\<close>

definition output_of :: "path \<Rightarrow> path" where
  "output_of flac = (case with_suffix flac ''.opus'' of Inl e \<Rightarrow> flac | Inr q \<Rightarrow> q)"

definition cover_of :: "path \<Rightarrow> path" where
  "cover_of flac = (case with_suffix flac ''.jpg'' of Inl e \<Rightarrow> flac | Inr q \<Rightarrow> q)"

definition skips :: "node \<Rightarrow> path \<Rightarrow> bool" where
  "skips t flac = (startswith (name flac) ''._'' \<or> exists t (output_of flac) = Inr True)"

definition tests_answer :: "node \<Rightarrow> path \<Rightarrow> bool" where
  "tests_answer t flac =
     (startswith (name flac) ''._'' \<or>
      exists t (output_of flac) = Inr True \<or>
      (exists t (output_of flac) = Inr False \<and> \<not> isl (exists t (cover_of flac))))"


definition never_removes :: "tool \<Rightarrow> bool" where
  "never_removes ffmpeg =
     (\<forall>cmd t q. exists t q = Inr True \<longrightarrow> exists (snd (ffmpeg cmd t)) q = Inr True)"

definition leaves_output :: "tool \<Rightarrow> string list \<Rightarrow> path \<Rightarrow> bool" where
  "leaves_output ffmpeg cmd out =
     (\<forall>t. succeeded (fst (ffmpeg cmd t)) \<longrightarrow> exists (snd (ffmpeg cmd t)) out = Inr True)"

text \<open>
  A directory lists each name once. The association lists of the model can repeat a name;
  the trees that model a file system are the well-formed ones.
\<close>

fun wf_node :: "node \<Rightarrow> bool" where
  "wf_node File = True"
| "wf_node (Link target) = True"
| "wf_node (Dir r x es) = (distinct (map fst es) \<and> (\<forall>n \<in> snd ` set es. wf_node n))"

text \<open>
  The paths below a directory that a scan reaches: the directory that holds the path and
  every directory above it may be listed, every directory above it may also be searched,
  and none of them is a symbolic link.
\<close>

fun listed :: "node \<Rightarrow> path \<Rightarrow> bool" where
  "listed (Dir r x es) [c] = (r \<and> c \<in> fst ` set es)"
| "listed (Dir r x es) (c # d # ds) =
     (r \<and> x \<and> (case map_of es c of None \<Rightarrow> False | Some n \<Rightarrow> listed n (d # ds)))"
| "listed t p = False"

text \<open>The trees without a symbolic link.\<close>

fun link_free :: "node \<Rightarrow> bool" where
  "link_free File = True"
| "link_free (Link target) = False"
| "link_free (Dir r x es) = (\<forall>n \<in> snd ` set es. link_free n)"

section \<open>A stand-in for the external tool, and example trees\<close>

text \<open>
  Creating a file: a new entry at the end of its parent directory. Nothing changes when the
  parent is missing or is not a directory, or when the name is already there.
\<close>

fun add_file :: "path \<Rightarrow> node \<Rightarrow> node" where
  "add_file [] t = t"
| "add_file [c] (Dir r x es) =
     (if c \<in> fst ` set es then Dir r x es else Dir r x (es @ [(c, File)]))"
| "add_file (c # d # cs) (Dir r x es) =
     Dir r x (map (\<lambda>(k, n). if k = c then (k, add_file (d # cs) n) else (k, n)) es)"
| "add_file (c # cs) File = File"
| "add_file (c # cs) (Link target) = Link target"

text \<open>The components of a path written with separators, and the argument after \<^verbatim>\<open>-i\<close>.\<close>

fun split_path :: "string \<Rightarrow> path" where
  "split_path [] = [[]]"
| "split_path (c # cs) =
     (case split_path cs of
        [] \<Rightarrow> [[c]]
      | x # xs \<Rightarrow> if c = CHR ''/'' then [] # x # xs else (c # x) # xs)"

fun input_arg :: "string list \<Rightarrow> string" where
  "input_arg (x # y # ys) = (if x = ''-i'' then y else input_arg (y # ys))"
| "input_arg ys = []"

text \<open>
  A tool that writes its output file, the last argument, and returns 0, except on the
  inputs listed as unreadable for that kind of command, in a tree with a symbolic link, and
  where the output cannot be created or found afterwards: there it writes nothing and
  returns 1. The cover commands are those that name the \<^verbatim>\<open>mjpeg\<close> encoder.
\<close>

definition mock_ffmpeg :: "string list \<Rightarrow> string list \<Rightarrow> tool" where
  "mock_ffmpeg no_cover no_audio cmd t =
     (if input_arg cmd \<in> set (if ''mjpeg'' \<in> set cmd then no_cover else no_audio)
      then (Inr (1, ''Invalid data found when processing input''), t)
      else if \<not> link_free t \<or>
              exists (add_file (split_path (last cmd)) t) (split_path (last cmd)) \<noteq> Inr True
      then (Inr (1, ''No such file or directory''), t)
      else (Inr (0, []), add_file (split_path (last cmd)) t))"

text \<open>A tool that cannot be started at all.\<close>

definition missing_ffmpeg :: tool where
  "missing_ffmpeg cmd t = (Inl (OtherException ''No such file or directory: ffmpeg''), t)"

text \<open>A tool that returns 0 and writes nothing.\<close>

definition silent_ffmpeg :: tool where
  "silent_ffmpeg cmd t = (Inr (0, []), t)"



text \<open>
  A cover image that is a symbolic link into a directory without search permission, which
  also holds a directory of albums.
\<close>

definition linked :: node where
  "linked =
     Dir True True
       [(''music'', Dir True True [(''a.flac'', File), (''a.jpg'', Link [''vault'', ''a.jpg''])]),
        (''vault'', Dir True False [(''a.jpg'', File), (''albums'', Dir True True [])])]"

definition music :: node where
  "music =
     Dir True True [(''music'',
       Dir True True
         [(''a.flac'', File), (''a.jpg'', File),
          (''b.flac'', File), (''b.opus'', File),
          (''c.flac'', File),
          (''._d.flac'', File),
          (''live'', Dir True True [(''e.flac'', File), (''song.FLAC'', File)])])]"


section \<open>Properties\<close>

subsection \<open>The shape of the program's computations\<close>

inductive_simps returns_Return_iff [simp]: "returns (Return y) x"
inductive_simps returns_Raise_iff [simp]: "returns (Raise e) x"
inductive_simps returns_Exists_iff [simp]: "returns (Exists p k) x"
inductive_simps returns_Run_iff [simp]: "returns (Run c k) x"

lemma returns_case_answer [simp]:
  "returns (case r of Inl e \<Rightarrow> Raise e | Inr found \<Rightarrow> f found) x =
     (\<exists>found. r = Inr found \<and> returns (f found) x)"
  by (cases r) simp_all

lemma with_suffix_opus_iff:
  "(\<exists>q. with_suffix p ''.opus'' = Inr q) = (name p \<noteq> [])"
  by (simp add: with_suffix_def startswith_def Let_def)

lemma with_suffix_jpg_iff:
  "(\<exists>q. with_suffix p ''.jpg'' = Inr q) = (name p \<noteq> [])"
  by (simp add: with_suffix_def startswith_def Let_def)

lemma exn_case_same:
  "case_exn a a (\<lambda>returncode stderr. a) (\<lambda>msg. a) = (\<lambda>e. a)"
  by (auto simp add: fun_eq_iff split: exn.splits)

lemma guarded_run:
  "try_except (bind (subprocess_run cmd True) (\<lambda>_. Return a)) (\<lambda>e. Return b) =
     Run cmd (\<lambda>r. Return (if succeeded r then a else b))"
  by (auto simp add: subprocess_run_def succeeded_def fun_eq_iff split: sum.splits prod.splits)

lemma bind_path_exists:
  "bind (path_exists p) f = Exists p (\<lambda>r. case r of Inl e \<Rightarrow> Raise e | Inr found \<Rightarrow> f found)"
  by (auto simp add: path_exists_def fun_eq_iff split: sum.splits)

lemma extract_cover_tree:
  assumes "with_suffix p ''.jpg'' = Inr j"
  shows "extract_cover p d =
     Exists j (\<lambda>r. case r of
        Inl e \<Rightarrow> Raise e
      | Inr found \<Rightarrow>
          if found then Return False
          else if d then Return True
          else Run (cover_cmd p j) (\<lambda>r. Return (succeeded r)))"
  using assms
  by (auto simp add: extract_cover_def lift_def bind_path_exists guarded_run Let_def fun_eq_iff
      split: sum.splits)

lemma convert_file_tree:
  assumes "with_suffix p ''.opus'' = Inr out" and "with_suffix p ''.jpg'' = Inr j"
  shows "convert_file p b d =
     (if startswith (name p) ''._'' then Return (False, True, False)
      else Exists out (\<lambda>r. case r of
          Inl e \<Rightarrow> Raise e
        | Inr found \<Rightarrow>
            if found then Return (False, True, False)
            else Exists j (\<lambda>r. case r of
                Inl e \<Rightarrow> Raise e
              | Inr found_j \<Rightarrow>
                  if \<not> found_j \<and> \<not> d
                  then Run (cover_cmd p j) (\<lambda>r.
                         Run (audio_cmd p out b) (\<lambda>r.
                           Return (if succeeded r then (True, False, False)
                                   else (False, False, True))))
                  else if d then Return (True, False, False)
                  else Run (audio_cmd p out b) (\<lambda>r.
                         Return (if succeeded r then (True, False, False)
                                 else (False, False, True))))))"
  using assms
  by (auto simp add: convert_file_def extract_cover_tree lift_def bind_path_exists guarded_run
      exn_case_same Let_def fun_eq_iff split: sum.splits)

lemma convert_file_raise:
  "name p = [] \<Longrightarrow> convert_file p b d = Raise ValueError"
  by (simp add: convert_file_def with_suffix_def lift_def)

lemma convert_file_one_hot:
  assumes "returns (convert_file p b d) (c, s, e)"
  shows "(c \<and> \<not> s \<and> \<not> e) \<or> (\<not> c \<and> s \<and> \<not> e) \<or> (\<not> c \<and> \<not> s \<and> e)"
proof (cases "name p = []")
  case True
  with assms show ?thesis by (simp add: convert_file_raise)
next
  case False
  then obtain out j where "with_suffix p ''.opus'' = Inr out" "with_suffix p ''.jpg'' = Inr j"
    using with_suffix_opus_iff with_suffix_jpg_iff by blast
  with assms show ?thesis
    by (auto simp add: convert_file_tree split: if_splits)
qed


subsection \<open>The pool keeps its invariant\<close>

lemma assured_rely:
  assumes tr: "\<And>t t' t''. R t t' \<Longrightarrow> R t' t'' \<Longrightarrow> R t t''"
    and "assured ffmpeg R G Q job t" and "R t t'"
  shows "assured ffmpeg R G Q job t'"
  using assms(2,3) by (cases job) (auto intro: tr)

lemma run_io_assured:
  assumes rf: "\<And>t. R t t"
    and ge: "\<And>t t'. G t t' \<Longrightarrow> E t t'"
    and erf: "\<And>t. E t t"
    and etr: "\<And>t t' t''. E t t' \<Longrightarrow> E t' t'' \<Longrightarrow> E t t''"
    and wg: "\<And>c w t'. W w \<Longrightarrow> G (fs w) t' \<Longrightarrow> W (w\<lparr>fs := t', spawned := spawned w @ [c]\<rparr>)"
  shows "assured ffmpeg R G Q job (fs w) \<Longrightarrow> W w \<Longrightarrow>
    (case run_io ffmpeg job w of (r, w') \<Rightarrow>
       (\<forall>t'. R (fs w') t' \<longrightarrow> Q r t') \<and> W w' \<and> E (fs w) (fs w'))"
proof (induction job arbitrary: w)
  case (Return x)
  then show ?case by (simp add: erf)
next
  case (Raise e)
  then show ?case by (simp add: erf)
next
  case (Exists p k)
  from Exists.prems have "assured ffmpeg R G Q (k (exists (fs w) p)) (fs w)"
    using rf by simp
  from Exists.IH[OF _ this Exists.prems(2)] show ?case by simp
next
  case (Run c k)
  obtain r t where f: "ffmpeg c (fs w) = (r, t)" by (cases "ffmpeg c (fs w)")
  let ?w = "w\<lparr>fs := t, spawned := spawned w @ [c]\<rparr>"
  from Run.prems f rf have g: "G (fs w) t" and s: "assured ffmpeg R G Q (k r) (fs ?w)"
    by force+
  have w: "W ?w" using wg Run.prems(2) g by blast
  from Run.IH[OF _ s w] have
    "case run_io ffmpeg (k r) ?w of (r, w') \<Rightarrow>
       (\<forall>t'. R (fs w') t' \<longrightarrow> Q r t') \<and> W w' \<and> E (fs ?w) (fs w')" by simp
  with f g show ?case
    by (auto split: prod.splits intro: etr ge)
qed



lemma pool_step_idle:
  "\<not> (i < length (pending pl) \<and> i < n) \<Longrightarrow> pool_step ffmpeg n i pl = pl"
  unfolding pool_step_def by (rule if_not_P)

lemma pool_step_Return:
  "i < length (pending pl) \<Longrightarrow> i < n \<Longrightarrow> pending pl ! i = (flac, Return x) \<Longrightarrow>
   pool_step ffmpeg n i pl =
     pl\<lparr>pending := take i (pending pl) @ drop (Suc i) (pending pl),
        finished := finished pl @ [(flac, Inr x)]\<rparr>"
  unfolding pool_step_def by simp

lemma pool_step_Raise:
  "i < length (pending pl) \<Longrightarrow> i < n \<Longrightarrow> pending pl ! i = (flac, Raise e) \<Longrightarrow>
   pool_step ffmpeg n i pl =
     pl\<lparr>pending := take i (pending pl) @ drop (Suc i) (pending pl),
        finished := finished pl @ [(flac, Inl e)]\<rparr>"
  unfolding pool_step_def by simp

lemma pool_step_Exists:
  "i < length (pending pl) \<Longrightarrow> i < n \<Longrightarrow> pending pl ! i = (flac, Exists p k) \<Longrightarrow>
   pool_step ffmpeg n i pl =
     pl\<lparr>pending := (pending pl)[i := (flac, k (exists (fs (state pl)) p))]\<rparr>"
  unfolding pool_step_def by simp

lemma pool_step_Run:
  "i < length (pending pl) \<Longrightarrow> i < n \<Longrightarrow> pending pl ! i = (flac, Run c k) \<Longrightarrow>
   ffmpeg c (fs (state pl)) = (r, t) \<Longrightarrow>
   pool_step ffmpeg n i pl =
     pl\<lparr>pending := (pending pl)[i := (flac, k r)],
        state := (state pl)\<lparr>fs := t, spawned := spawned (state pl) @ [c]\<rparr>\<rparr>"
  unfolding pool_step_def by simp

lemma set_remove_nth: "set (take i xs @ drop (Suc i) xs) \<subseteq> set xs"
  by (auto dest: in_set_takeD in_set_dropD)

lemma mset_remove_nth:
  assumes "i < length xs"
  shows "mset (map f (take i xs @ drop (Suc i) xs)) + {#f (xs ! i)#} = mset (map f xs)"
proof -
  have "map f xs = map f (take i xs @ xs ! i # drop (Suc i) xs)"
    using assms by (simp only: id_take_nth_drop[symmetric])
  then show ?thesis by simp
qed

lemma map_fst_update:
  assumes "i < length xs" and "fst (xs ! i) = p"
  shows "map fst (xs[i := (p, y)]) = map fst xs"
  using assms by (simp add: map_update list_update_same_conv)

lemma in_mset_parts:
  assumes "mset (map fst xs) + mset (map fst ys) = mset L"
  shows "(p, v) \<in> set xs \<Longrightarrow> p \<in> set L" and "(p, w) \<in> set ys \<Longrightarrow> p \<in> set L"
proof -
  have "set L = fst ` set xs \<union> fst ` set ys"
    using arg_cong[OF assms, of set_mset] by simp
  then show "(p, v) \<in> set xs \<Longrightarrow> p \<in> set L" and "(p, w) \<in> set ys \<Longrightarrow> p \<in> set L"
    by force+
qed

lemma distinct_parts:
  assumes "mset (map fst xs) + mset (map fst ys) = mset L" and "distinct L"
  shows "distinct (map fst xs @ map fst ys)"
proof -
  have "mset (map fst xs @ map fst ys) = mset L" using assms(1) by simp
  then show ?thesis using assms(2) mset_eq_imp_distinct_iff by blast
qed



lemma pool_inv_step:
  assumes rf: "\<And>p t. R p t t"
    and tr: "\<And>p t t' t''. R p t t' \<Longrightarrow> R p t' t'' \<Longrightarrow> R p t t''"
    and compat: "\<And>p q t t'. p \<in> set L \<Longrightarrow> q \<in> set L \<Longrightarrow> (D \<Longrightarrow> p \<noteq> q) \<Longrightarrow> G p t t' \<Longrightarrow> R q t t'"
    and dist: "D \<Longrightarrow> distinct L"
    and wg: "\<And>p c w t'. W w \<Longrightarrow> G p (fs w) t' \<Longrightarrow> W (w\<lparr>fs := t', spawned := spawned w @ [c]\<rparr>)"
    and inv: "pool_inv ffmpeg L R G Q W (pending pl) (finished pl) (state pl)"
  shows "pool_inv ffmpeg L R G Q W (pending (pool_step ffmpeg n i pl)) (finished (pool_step ffmpeg n i pl))
           (state (pool_step ffmpeg n i pl))"
proof (cases "i < length (pending pl) \<and> i < n")
  case False
  then show ?thesis using inv by (simp add: pool_step_idle)
next
  case True
  then have il: "i < length (pending pl)" and "i < n" by simp_all
  obtain flac job where ij: "pending pl ! i = (flac, job)" by (cases "pending pl ! i")
  let ?xs = "pending pl"
  have mem: "(flac, job) \<in> set ?xs" using il ij nth_mem by metis
  have ms: "mset (map fst ?xs) + mset (map fst (finished pl)) = mset L"
    and asall: "\<forall>(p, job) \<in> set ?xs. assured ffmpeg (R p) (G p) (Q p) job (fs (state pl))"
    and fin: "\<forall>(p, r) \<in> set (finished pl). \<forall>t'. R p (fs (state pl)) t' \<longrightarrow> Q p r t'"
    and W: "W (state pl)"
    using inv by (simp_all add: pool_inv_def)
  have asj: "assured ffmpeg (R flac) (G flac) (Q flac) job (fs (state pl))"
    using asall mem by blast
  have msrest: "mset (map fst (take i ?xs @ drop (Suc i) ?xs)) + {#flac#} = mset (map fst ?xs)"
    using mset_remove_nth[OF il, of fst] ij by simp
  have deliver: "pool_inv ffmpeg L R G Q W (take i ?xs @ drop (Suc i) ?xs) (finished pl @ [(flac, v)]) (state pl)"
    if v: "\<forall>t'. R flac (fs (state pl)) t' \<longrightarrow> Q flac v t'" for v
  proof -
    have a: "mset (map fst (take i ?xs @ drop (Suc i) ?xs)) + mset (map fst (finished pl @ [(flac, v)])) = mset L"
      using ms unfolding msrest[symmetric] by simp
    have b: "\<forall>(p, job) \<in> set (take i ?xs @ drop (Suc i) ?xs). assured ffmpeg (R p) (G p) (Q p) job (fs (state pl))"
      using asall set_remove_nth[of i ?xs] by blast
    have c: "\<forall>(p, r) \<in> set (finished pl @ [(flac, v)]). \<forall>t'. R p (fs (state pl)) t' \<longrightarrow> Q p r t'"
      using fin v by simp
    show ?thesis unfolding pool_inv_def using a b c W by blast
  qed
  show ?thesis
  proof (cases job)
    case (Return x)
    have "\<forall>t'. R flac (fs (state pl)) t' \<longrightarrow> Q flac (Inr x) t'"
      using asj Return by simp
    from deliver[OF this] show ?thesis
      using True ij Return by (simp add: pool_step_Return)
  next
    case (Raise e)
    have "\<forall>t'. R flac (fs (state pl)) t' \<longrightarrow> Q flac (Inl e) t'"
      using asj Raise by simp
    from deliver[OF this] show ?thesis
      using True ij Raise by (simp add: pool_step_Raise)
  next
    case (Exists p k)
    let ?new = "(flac, k (exists (fs (state pl)) p))"
    have new: "assured ffmpeg (R flac) (G flac) (Q flac) (k (exists (fs (state pl)) p)) (fs (state pl))"
      using asj Exists rf by simp
    have m: "map fst (?xs[i := ?new]) = map fst ?xs"
      using map_fst_update[OF il] ij by simp
    have "set (?xs[i := ?new]) \<subseteq> insert ?new (set ?xs)"
      by (rule set_update_subset_insert)
    then have b: "\<forall>(q, job') \<in> set (?xs[i := ?new]). assured ffmpeg (R q) (G q) (Q q) job' (fs (state pl))"
      using asall new by blast
    have "pool_inv ffmpeg L R G Q W (?xs[i := ?new]) (finished pl) (state pl)"
      unfolding pool_inv_def using ms m b fin W by simp
    then show ?thesis
      using True ij Exists by (simp add: pool_step_Exists)
  next
    case (Run c k)
    obtain r t where f: "ffmpeg c (fs (state pl)) = (r, t)" by (cases "ffmpeg c (fs (state pl))")
    let ?new = "(flac, k r)"
    let ?w = "(state pl)\<lparr>fs := t, spawned := spawned (state pl) @ [c]\<rparr>"
    have "R flac (fs (state pl)) (fs (state pl))" by (rule rf)
    with asj Run f have g: "G flac (fs (state pl)) t"
      and new: "assured ffmpeg (R flac) (G flac) (Q flac) (k r) t"
      by auto
    have flacL: "flac \<in> set L" using in_mset_parts(1)[OF ms mem] .
    have m: "map fst (?xs[i := ?new]) = map fst ?xs"
      using map_fst_update[OF il] ij by simp
    have dd: "D \<Longrightarrow> distinct (map fst ?xs @ map fst (finished pl))"
      using dist distinct_parts[OF ms] by blast
    have others: "assured ffmpeg (R q) (G q) (Q q) job' t"
      if "j < length ?xs" "j \<noteq> i" "?xs ! j = (q, job')" for j q job'
    proof -
      have qm: "(q, job') \<in> set ?xs" using that nth_mem by metis
      have qL: "q \<in> set L" using in_mset_parts(1)[OF ms qm] .
      have ne: "D \<Longrightarrow> flac \<noteq> q"
      proof -
        assume D
        then have "distinct (map fst ?xs)" using dd by simp
        then have "(map fst ?xs ! i = map fst ?xs ! j) = (i = j)"
          using that(1) il by (intro nth_eq_iff_index_eq) simp_all
        then have "map fst ?xs ! i \<noteq> map fst ?xs ! j" using that(2) by simp
        then show ?thesis using that il ij by simp
      qed
      have "R q (fs (state pl)) t" using compat[OF flacL qL ne g] .
      moreover have "assured ffmpeg (R q) (G q) (Q q) job' (fs (state pl))" using asall qm by blast
      ultimately show ?thesis using assured_rely[of "R q"] tr by blast
    qed
    have b: "\<forall>(q, job') \<in> set (?xs[i := ?new]). assured ffmpeg (R q) (G q) (Q q) job' (fs ?w)"
    proof (clarify)
      fix q job' assume "(q, job') \<in> set (?xs[i := ?new])"
      then obtain j where j: "j < length ?xs" "(?xs[i := ?new]) ! j = (q, job')"
        by (metis in_set_conv_nth length_list_update)
      show "assured ffmpeg (R q) (G q) (Q q) job' (fs ?w)"
      proof (cases "j = i")
        case True
        then show ?thesis using j new by simp
      next
        case False
        then show ?thesis using j others[of j q job'] by simp
      qed
    qed
    have finok: "\<forall>(q, r') \<in> set (finished pl). \<forall>t'. R q (fs ?w) t' \<longrightarrow> Q q r' t'"
    proof (clarify)
      fix q r' t' assume qf: "(q, r') \<in> set (finished pl)" and rt: "R q (fs ?w) t'"
      have qL: "q \<in> set L" using in_mset_parts(2)[OF ms qf] .
      have ne: "D \<Longrightarrow> flac \<noteq> q"
      proof -
        assume D
        then have "set (map fst ?xs) \<inter> set (map fst (finished pl)) = {}" using dd by simp
        moreover have "flac \<in> set (map fst ?xs)" using mem by force
        moreover have "q \<in> set (map fst (finished pl))" using qf by force
        ultimately show ?thesis by blast
      qed
      have "R q (fs (state pl)) t" using compat[OF flacL qL ne g] .
      moreover have "R q t t'" using rt by simp
      ultimately have "R q (fs (state pl)) t'" using tr by blast
      then show "Q q r' t'" using fin qf by blast
    qed
    have w: "W ?w" using wg[OF W g] .
    have "pool_inv ffmpeg L R G Q W (?xs[i := ?new]) (finished pl) ?w"
      unfolding pool_inv_def using ms m b finok w by simp
    then show ?thesis
      using True ij Run f by (simp add: pool_step_Run)
  qed
qed



lemma pool_inv_drain:
  assumes rf: "\<And>p t. R p t t"
    and tr: "\<And>p t t' t''. R p t t' \<Longrightarrow> R p t' t'' \<Longrightarrow> R p t t''"
    and compat: "\<And>p q t t'. p \<in> set L \<Longrightarrow> q \<in> set L \<Longrightarrow> (D \<Longrightarrow> p \<noteq> q) \<Longrightarrow> G p t t' \<Longrightarrow> R q t t'"
    and dist: "D \<Longrightarrow> distinct L"
    and wg: "\<And>p c w t'. W w \<Longrightarrow> G p (fs w) t' \<Longrightarrow> W (w\<lparr>fs := t', spawned := spawned w @ [c]\<rparr>)"
  shows "pool_inv ffmpeg L R G Q W rest (finished pl) (state pl) \<Longrightarrow>
         pending (drain ffmpeg pl rest) = [] \<and>
         pool_inv ffmpeg L R G Q W [] (finished (drain ffmpeg pl rest)) (state (drain ffmpeg pl rest))"
proof (induction rest arbitrary: pl)
  case Nil
  then show ?case by simp
next
  case (Cons a rest)
  obtain flac job where a: "a = (flac, job)" by (cases a)
  obtain r w' where run: "run_io ffmpeg job (state pl) = (r, w')"
    by (cases "run_io ffmpeg job (state pl)")
  let ?pl = "pl\<lparr>finished := finished pl @ [(flac, r)], state := w'\<rparr>"
  have ms: "mset (map fst (a # rest)) + mset (map fst (finished pl)) = mset L"
    and asall: "\<forall>(p, job) \<in> set (a # rest). assured ffmpeg (R p) (G p) (Q p) job (fs (state pl))"
    and fin: "\<forall>(p, r) \<in> set (finished pl). \<forall>t'. R p (fs (state pl)) t' \<longrightarrow> Q p r t'"
    and W: "W (state pl)"
    using Cons.prems by (simp_all add: pool_inv_def)
  have flacL: "flac \<in> set L" using in_mset_parts(1)[OF ms, of flac job] a by simp
  have asj: "assured ffmpeg (R flac) (G flac) (Q flac) job (fs (state pl))"
    using asall a by simp
  define E where "E = (\<lambda>t t'. \<forall>q \<in> set L. (D \<longrightarrow> flac \<noteq> q) \<longrightarrow> R q t t')"
  have ge: "\<And>t t'. G flac t t' \<Longrightarrow> E t t'"
    unfolding E_def using compat[OF flacL] by blast
  have erf: "\<And>t. E t t" unfolding E_def using rf by blast
  have etr: "\<And>t t' t''. E t t' \<Longrightarrow> E t' t'' \<Longrightarrow> E t t''"
    unfolding E_def using tr by blast
  have "case run_io ffmpeg job (state pl) of (r, w') \<Rightarrow>
       (\<forall>t'. R flac (fs w') t' \<longrightarrow> Q flac r t') \<and> W w' \<and> E (fs (state pl)) (fs w')"
    by (rule run_io_assured[of "R flac" "G flac" E W, OF rf ge erf etr wg asj W])
  with run have res: "\<forall>t'. R flac (fs w') t' \<longrightarrow> Q flac r t'" and w': "W w'"
    and e: "E (fs (state pl)) (fs w')" by simp_all
  have dd: "D \<Longrightarrow> distinct (map fst (a # rest) @ map fst (finished pl))"
    using dist distinct_parts[OF ms] by blast
  have env: "R q (fs (state pl)) (fs w')"
    if "q \<in> set (map fst rest) \<union> set (map fst (finished pl))" for q
  proof -
    have qL: "q \<in> set L"
      using that arg_cong[OF ms, of set_mset] by auto
    have "D \<Longrightarrow> flac \<noteq> q" using dd that a by auto
    then show ?thesis using e qL unfolding E_def by blast
  qed
  have a1: "mset (map fst rest) + mset (map fst (finished ?pl)) = mset L"
    using ms a by simp
  have a2: "\<forall>(p, job) \<in> set rest. assured ffmpeg (R p) (G p) (Q p) job (fs (state ?pl))"
  proof (clarify)
    fix p job' assume m: "(p, job') \<in> set rest"
    then have "assured ffmpeg (R p) (G p) (Q p) job' (fs (state pl))" using asall by auto
    moreover have "R p (fs (state pl)) (fs w')" using env[of p] m by force
    ultimately have "assured ffmpeg (R p) (G p) (Q p) job' (fs w')"
      using assured_rely[of "R p"] tr by blast
    then show "assured ffmpeg (R p) (G p) (Q p) job' (fs (state ?pl))" by simp
  qed
  have a3: "\<forall>(p, r) \<in> set (finished ?pl). \<forall>t'. R p (fs (state ?pl)) t' \<longrightarrow> Q p r t'"
  proof (clarify)
    fix p v t' assume m: "(p, v) \<in> set (finished ?pl)" and rr: "R p (fs (state ?pl)) t'"
    show "Q p v t'"
    proof (cases "(p, v) \<in> set (finished pl)")
      case True
      then have "R p (fs (state pl)) (fs w')" using env[of p] by force
      moreover have "R p (fs w') t'" using rr by simp
      ultimately have "R p (fs (state pl)) t'" using tr by blast
      then show ?thesis using fin True by blast
    next
      case False
      then have "p = flac" "v = r" using m by simp_all
      then show ?thesis using res rr by simp
    qed
  qed
  have "pool_inv ffmpeg L R G Q W rest (finished ?pl) (state ?pl)"
    unfolding pool_inv_def using a1 a2 a3 w' by simp
  from Cons.IH[OF this] show ?case using a run by simp
qed

lemma pool_inv_run_pool:
  assumes rf: "\<And>p t. R p t t"
    and tr: "\<And>p t t' t''. R p t t' \<Longrightarrow> R p t' t'' \<Longrightarrow> R p t t''"
    and compat: "\<And>p q t t'. p \<in> set L \<Longrightarrow> q \<in> set L \<Longrightarrow> (D \<Longrightarrow> p \<noteq> q) \<Longrightarrow> G p t t' \<Longrightarrow> R q t t'"
    and dist: "D \<Longrightarrow> distinct L"
    and wg: "\<And>p c w t'. W w \<Longrightarrow> G p (fs w) t' \<Longrightarrow> W (w\<lparr>fs := t', spawned := spawned w @ [c]\<rparr>)"
  shows "pool_inv ffmpeg L R G Q W (pending pl) (finished pl) (state pl) \<Longrightarrow>
         pending (run_pool ffmpeg n sched pl) = [] \<and>
         pool_inv ffmpeg L R G Q W [] (finished (run_pool ffmpeg n sched pl))
           (state (run_pool ffmpeg n sched pl))"
proof (induction sched arbitrary: pl)
  case Nil
  show ?case
    using pool_inv_drain[of R L D G W ffmpeg Q "pending pl" pl, OF rf tr compat dist wg Nil.prems]
    by simp
next
  case (Cons i sched)
  have "pool_inv ffmpeg L R G Q W (pending (pool_step ffmpeg n i pl))
          (finished (pool_step ffmpeg n i pl)) (state (pool_step ffmpeg n i pl))"
    by (rule pool_inv_step[of R L D G W ffmpeg Q pl n i, OF rf tr compat dist wg Cons.prems])
  from Cons.IH[OF this] show ?case by simp
qed

lemma pool_result:
  assumes rf: "\<And>p t. R p t t"
    and tr: "\<And>p t t' t''. R p t t' \<Longrightarrow> R p t' t'' \<Longrightarrow> R p t t''"
    and compat: "\<And>p q t t'. p \<in> set L \<Longrightarrow> q \<in> set L \<Longrightarrow> (D \<Longrightarrow> p \<noteq> q) \<Longrightarrow> G p t t' \<Longrightarrow> R q t t'"
    and dist: "D \<Longrightarrow> distinct L"
    and wg: "\<And>p c w t'. W w \<Longrightarrow> G p (fs w) t' \<Longrightarrow> W (w\<lparr>fs := t', spawned := spawned w @ [c]\<rparr>)"
    and init: "\<And>p. p \<in> set L \<Longrightarrow> assured ffmpeg (R p) (G p) (Q p) (job p) (fs w)"
    and W: "W w"
    and pl': "pl' = run_pool ffmpeg n sched \<lparr>pending = map (\<lambda>p. (p, job p)) L, finished = [], state = w\<rparr>"
  shows "mset (map fst (finished pl')) = mset L \<and>
         (\<forall>(p, r) \<in> set (finished pl'). Q p r (fs (state pl'))) \<and> W (state pl')"
proof -
  let ?pl = "\<lparr>pending = map (\<lambda>p. (p, job p)) L, finished = [], state = w\<rparr>"
  have m: "map fst (map (\<lambda>p. (p, job p)) L) = L" by (induction L) simp_all
  have "pool_inv ffmpeg L R G Q W (pending ?pl) (finished ?pl) (state ?pl)"
    unfolding pool_inv_def using init W m by auto
  from pool_inv_run_pool[of R L D G W ffmpeg Q ?pl n sched, OF rf tr compat dist wg this]
  have "pool_inv ffmpeg L R G Q W [] (finished pl') (state pl')" using pl' by simp
  then show ?thesis unfolding pool_inv_def using rf by auto
qed



subsection \<open>The per-item policy\<close>



lemma sidecar_has_name: "startswith (name p) ''._'' \<Longrightarrow> name p \<noteq> []"
  by (auto simp add: startswith_def)

lemma convert_file_sidecar:
  assumes "startswith (name p) ''._''"
  shows "convert_file p b d = Return (False, True, False)"
proof -
  from assms have "name p \<noteq> []" by (rule sidecar_has_name)
  then obtain out j where "with_suffix p ''.opus'' = Inr out" "with_suffix p ''.jpg'' = Inr j"
    using with_suffix_opus_iff with_suffix_jpg_iff by blast
  then show ?thesis using assms by (simp add: convert_file_tree)
qed




text \<open>
  C8. When the sibling \<^verbatim>\<open>.jpg\<close> path exists, \<^verbatim>\<open>extract_cover\<close> returns \<^verbatim>\<open>False\<close> at
  once: its first request is the existence check, the answer \<^verbatim>\<open>True\<close> ends it, no command
  is spawned and the world is as it was. It returns; it does not raise.
\<close>

theorem extract_cover_existing_cover:
  assumes "with_suffix flac_path ''.jpg'' = Inr cover_jpg" and "exists (fs w) cover_jpg = Inr True"
  shows "run_io ffmpeg (extract_cover flac_path dry) w = (Inr False, w) \<and>
         (\<exists>k. extract_cover flac_path dry = Exists cover_jpg k \<and> k (Inr True) = Return False)"
  using assms by (simp add: extract_cover_tree)

theorem extract_cover_existing_cover_witness:
  "with_suffix [''music'', ''a.flac''] ''.jpg'' = Inr [''music'', ''a.jpg''] \<and>
   exists (fs \<lparr>host = Posix, fs = music, spawned = []\<rparr>) [''music'', ''a.jpg''] = Inr True \<and>
   run_io missing_ffmpeg (extract_cover [''music'', ''a.flac''] False)
     \<lparr>host = Posix, fs = music, spawned = []\<rparr> =
     (Inr False, \<lparr>host = Posix, fs = music, spawned = []\<rparr>)"
proof -
  have a: "with_suffix [''music'', ''a.flac''] ''.jpg'' = Inr [''music'', ''a.jpg'']"
    by code_simp
  have b: "exists (fs \<lparr>host = Posix, fs = music, spawned = []\<rparr>) [''music'', ''a.jpg''] = Inr True"
    by code_simp
  from extract_cover_existing_cover[OF a b, of missing_ffmpeg False] a b show ?thesis
    by blast
qed



text \<open>
  C5. The claim fails on the code. The cover path of \<^verbatim>\<open>music/a.flac\<close> is a symbolic link
  into a directory without search permission, and the output path is absent. The existence
  test of \<^verbatim>\<open>extract_cover\<close> stands before its \<^verbatim>\<open>try\<close>, so its \<^verbatim>\<open>PermissionError\<close> leaves
  \<^verbatim>\<open>extract_cover\<close> and \<^verbatim>\<open>convert_file\<close>: the file is counted as an error although no audio
  command was spawned, with a tool that would have returned 0.
\<close>

theorem cover_test_raises:
  "exists linked [''music'', ''a.opus''] = Inr False \<and>
   exists linked [''music'', ''a.jpg''] = Inl PermissionError \<and>
   run_io silent_ffmpeg (extract_cover [''music'', ''a.flac''] False)
     \<lparr>host = Posix, fs = linked, spawned = []\<rparr> =
     (Inl PermissionError, \<lparr>host = Posix, fs = linked, spawned = []\<rparr>) \<and>
   run_io silent_ffmpeg (convert_file [''music'', ''a.flac''] ''192k'' False)
     \<lparr>host = Posix, fs = linked, spawned = []\<rparr> =
     (Inl PermissionError, \<lparr>host = Posix, fs = linked, spawned = []\<rparr>) \<and>
   main silent_ffmpeg [] \<lparr>root = [''music''], bitrate = ''192k'', jobs = 1, dry_run = False\<rparr>
     \<lparr>host = Posix, fs = linked, spawned = []\<rparr> =
     \<lparr>ending = SysExit 1, discovered = Some [[''music'', ''a.flac'']],
      summary = Some \<lparr>converted = 0, skipped = 0, errors = 1\<rparr>,
      after = \<lparr>host = Posix, fs = linked, spawned = []\<rparr>\<rparr>"
  by code_simp





subsection \<open>The branches of \<^verbatim>\<open>main\<close>\<close>

lemma is_dir_cases:
  obtains (raises) e where "is_dir t p = Inl e"
  | (no) "is_dir t p = Inr False"
  | (yes) "is_dir t p = Inr True"
  by (cases "is_dir t p") auto

lemma is_dir_gather:
  "is_dir t p = Inr True \<Longrightarrow> \<exists>L. gather_flac_files fl t p = Inr L"
  by (auto simp add: is_dir_def gather_flac_files_def split: sum.splits option.splits node.splits)

lemma main_root_raises:
  "is_dir (fs w) (root a) = Inl e \<Longrightarrow>
   main ffmpeg sched a w = \<lparr>ending = Uncaught e, discovered = None, summary = None, after = w\<rparr>"
  by (simp add: main_def)

lemma main_invalid_root:
  "is_dir (fs w) (root a) = Inr False \<Longrightarrow>
   main ffmpeg sched a w = \<lparr>ending = SysExit 1, discovered = None, summary = None, after = w\<rparr>"
  by (simp add: main_def)

lemma main_nothing_found:
  "is_dir (fs w) (root a) = Inr True \<Longrightarrow> gather_flac_files (host w) (fs w) (root a) = Inr [] \<Longrightarrow>
   main ffmpeg sched a w = \<lparr>ending = Returned, discovered = Some [], summary = None, after = w\<rparr>"
  by (simp add: main_def)

lemma main_bad_jobs:
  "is_dir (fs w) (root a) = Inr True \<Longrightarrow> gather_flac_files (host w) (fs w) (root a) = Inr L \<Longrightarrow>
   L \<noteq> [] \<Longrightarrow> jobs a \<le> 0 \<Longrightarrow>
   main ffmpeg sched a w =
     \<lparr>ending = Uncaught ValueError, discovered = Some L, summary = None, after = w\<rparr>"
  by (simp add: main_def Let_def)

lemma main_dispatch:
  "is_dir (fs w) (root a) = Inr True \<Longrightarrow> gather_flac_files (host w) (fs w) (root a) = Inr L \<Longrightarrow>
   L \<noteq> [] \<Longrightarrow> 0 < jobs a \<Longrightarrow>
   dispatch ffmpeg (nat (jobs a)) sched L (bitrate a) (dry_run a) w = (cnt, w') \<Longrightarrow>
   main ffmpeg sched a w =
     \<lparr>ending = (if 0 < errors cnt then SysExit 1 else Returned),
      discovered = Some L, summary = Some cnt, after = w'\<rparr>"
  by (simp add: main_def Let_def)

lemma main_summary_dispatch:
  assumes "summary (main ffmpeg sched a w) = Some cnt"
  obtains L w' where "is_dir (fs w) (root a) = Inr True"
    and "gather_flac_files (host w) (fs w) (root a) = Inr L" and "L \<noteq> []" and "0 < jobs a"
    and "dispatch ffmpeg (nat (jobs a)) sched L (bitrate a) (dry_run a) w = (cnt, w')"
    and "main ffmpeg sched a w =
           \<lparr>ending = (if 0 < errors cnt then SysExit 1 else Returned),
            discovered = Some L, summary = Some cnt, after = w'\<rparr>"
proof (cases rule: is_dir_cases[of "fs w" "root a"])
  case (raises e)
  with assms show ?thesis by (simp add: main_root_raises)
next
  case no
  with assms show ?thesis by (simp add: main_invalid_root)
next
  case yes
  from is_dir_gather[OF yes] obtain L where L: "gather_flac_files (host w) (fs w) (root a) = Inr L"
    by blast
  show ?thesis
  proof (cases "L = []")
    case True
    with assms yes L show ?thesis by (simp add: main_nothing_found)
  next
    case ne: False
    show ?thesis
    proof (cases "jobs a \<le> 0")
      case True
      with assms show ?thesis by (simp add: main_bad_jobs[OF yes L ne])
    next
      case False
      then have j: "0 < jobs a" by simp
      obtain c w' where d: "dispatch ffmpeg (nat (jobs a)) sched L (bitrate a) (dry_run a) w = (c, w')"
        by (cases "dispatch ffmpeg (nat (jobs a)) sched L (bitrate a) (dry_run a) w")
      from main_dispatch[OF yes L ne j d] assms have "c = cnt" by simp
      with main_dispatch[OF yes L ne j d] d yes L ne j that show ?thesis by blast
    qed
  qed
qed

subsection \<open>Counting the outcomes\<close>

lemma tally_fold:
  "foldl (\<lambda>cnt (flac, result). tally result cnt) cnt fin =
     \<lparr>converted = converted cnt + count_outcome Converted fin,
      skipped = skipped cnt + count_outcome Skipped fin,
      errors = errors cnt + count_outcome Errored fin\<rparr>"
proof (induction fin arbitrary: cnt)
  case Nil
  then show ?case by (simp add: count_outcome_def)
next
  case (Cons a fin)
  obtain flac result where a: "a = (flac, result)" by (cases a)
  show ?case
    unfolding a by (simp add: Cons.IH) (auto simp add: tally_def classify_def count_outcome_def split: sum.splits)
qed

lemma count_outcome_total:
  "\<forall>(flac, result) \<in> set fin. classify result \<noteq> None \<Longrightarrow>
   count_outcome Converted fin + count_outcome Skipped fin + count_outcome Errored fin = length fin"
proof (induction fin)
  case Nil
  then show ?case by (simp add: count_outcome_def)
next
  case (Cons a fin)
  obtain flac result where a: "a = (flac, result)" by (cases a)
  from Cons.prems a obtain x where x: "classify result = Some x" by auto
  have "count_outcome Converted fin + count_outcome Skipped fin + count_outcome Errored fin = length fin"
    using Cons by simp
  then show ?case
    unfolding a using x by (cases x) (simp_all add: count_outcome_def)
qed

lemma assured_returns:
  assumes "\<And>e. P (Inl e)"
  shows "(\<And>x. returns job x \<Longrightarrow> P (Inr x)) \<Longrightarrow>
    assured ffmpeg (\<lambda>t t'. True) (\<lambda>t t'. True) (\<lambda>r t. P r) job t"
proof (induction job arbitrary: t)
  case (Return x)
  then show ?case by simp
next
  case (Raise e)
  then show ?case using assms by simp
next
  case (Exists p k)
  then show ?case by auto
next
  case (Run c k)
  then show ?case by (auto split: prod.splits)
qed

lemma classify_convert_file:
  "returns (convert_file p b d) x \<Longrightarrow> classify (Inr x) \<noteq> None"
  using convert_file_one_hot[of p b d "fst x" "fst (snd x)" "snd (snd x)"]
  by (auto simp add: classify_def split: prod.splits)

lemma dispatch_finished:
  assumes "pl = run_pool ffmpeg n sched
             \<lparr>pending = map (\<lambda>flac. (flac, convert_file flac b d)) L, finished = [], state = w\<rparr>"
  shows "mset (map fst (finished pl)) = mset L"
    and "\<forall>(flac, result) \<in> set (finished pl). classify result \<noteq> None"
proof -
  have init: "\<And>p. p \<in> set L \<Longrightarrow>
      assured ffmpeg (\<lambda>t t'. True) (\<lambda>t t'. True) (\<lambda>r t. classify r \<noteq> None) (convert_file p b d) (fs w)"
  proof (rule assured_returns)
    show "\<And>e. classify (Inl e) \<noteq> None" by (simp add: classify_def)
    show "\<And>p x. returns (convert_file p b d) x \<Longrightarrow> classify (Inr x) \<noteq> None"
      by (rule classify_convert_file)
  qed
  have "mset (map fst (finished pl)) = mset L \<and>
         (\<forall>(p, r) \<in> set (finished pl). classify r \<noteq> None) \<and> True"
    by (rule pool_result[of "\<lambda>p t t'. True" L False "\<lambda>p t t'. True" "\<lambda>w. True" ffmpeg
          "\<lambda>p r t. classify r \<noteq> None" "\<lambda>p. convert_file p b d" w pl n sched, OF _ _ _ _ _ init _ assms])
      simp_all
  then show "mset (map fst (finished pl)) = mset L"
    and "\<forall>(flac, result) \<in> set (finished pl). classify result \<noteq> None" by simp_all
qed

lemma dispatch_total:
  "dispatch ffmpeg n sched L b d w = (cnt, w') \<Longrightarrow>
   converted cnt + skipped cnt + errors cnt = length L"
proof -
  assume d: "dispatch ffmpeg n sched L b d w = (cnt, w')"
  define pl where "pl = run_pool ffmpeg n sched
             \<lparr>pending = map (\<lambda>flac. (flac, convert_file flac b d)) L, finished = [], state = w\<rparr>"
  have cnt: "cnt = foldl (\<lambda>cnt (flac, result). tally result cnt)
            \<lparr>converted = 0, skipped = 0, errors = 0\<rparr> (finished pl)"
    using d unfolding dispatch_def pl_def by (simp add: Let_def)
  have "length (finished pl) = length L"
    using dispatch_finished(1)[OF pl_def] by (metis length_map size_mset)
  moreover have "count_outcome Converted (finished pl) + count_outcome Skipped (finished pl) +
      count_outcome Errored (finished pl) = length (finished pl)"
    using count_outcome_total dispatch_finished(2)[OF pl_def] by blast
  ultimately show ?thesis unfolding cnt tally_fold by simp
qed

lemma main_summary:
  assumes "summary (main ffmpeg sched a w) = Some cnt"
  shows "\<exists>L. gather_flac_files (host w) (fs w) (root a) = Inr L \<and>
             discovered (main ffmpeg sched a w) = Some L \<and>
             converted cnt + skipped cnt + errors cnt = length L"
proof -
  from assms obtain L w' where L: "gather_flac_files (host w) (fs w) (root a) = Inr L"
    and d: "dispatch ffmpeg (nat (jobs a)) sched L (bitrate a) (dry_run a) w = (cnt, w')"
    and m: "main ffmpeg sched a w =
           \<lparr>ending = (if 0 < errors cnt then SysExit 1 else Returned),
            discovered = Some L, summary = Some cnt, after = w'\<rparr>"
    by (rule main_summary_dispatch)
  from dispatch_total[OF d] L m show ?thesis by simp
qed

text \<open>
  C1. The counters add up to the number of tasks. For every list of files, tool, worker
  bound and schedule, the three counters the dispatch loop ends with sum to the length of
  the list, tasks that raise included; and when \<^verbatim>\<open>main\<close> logs a summary, its counters sum
  to the number of discovered files.
\<close>

theorem counters_sum_to_total:
  "(dispatch ffmpeg max_workers sched flac_list rate dry w = (cnt, w') \<longrightarrow>
      converted cnt + skipped cnt + errors cnt = length flac_list) \<and>
   (summary (main ffmpeg sched a w) = Some cnt' \<longrightarrow>
      (\<exists>found. gather_flac_files (host w) (fs w) (root a) = Inr found \<and>
         discovered (main ffmpeg sched a w) = Some found \<and>
         converted cnt' + skipped cnt' + errors cnt' = length found))"
  using dispatch_total main_summary by blast

theorem counters_sum_to_total_witness:
  "dispatch missing_ffmpeg 1 [0] [[], [''music'', ''b.flac'']] ''192k'' False
     \<lparr>host = Posix, fs = music, spawned = []\<rparr> =
     (\<lparr>converted = 0, skipped = 1, errors = 1\<rparr>, \<lparr>host = Posix, fs = music, spawned = []\<rparr>) \<and>
   summary (main (mock_ffmpeg [''music/live/e.flac''] [''music/c.flac'']) [1, 0, 1]
     \<lparr>root = [''music''], bitrate = ''192k'', jobs = 2, dry_run = False\<rparr>
     \<lparr>host = Posix, fs = music, spawned = []\<rparr>) =
     Some \<lparr>converted = 2, skipped = 2, errors = 1\<rparr> \<and>
   (\<exists>found. gather_flac_files Posix music [''music''] = Inr found \<and> (2::nat) + 2 + 1 = length found)"
proof -
  have a: "dispatch missing_ffmpeg 1 [0] [[], [''music'', ''b.flac'']] ''192k'' False
     \<lparr>host = Posix, fs = music, spawned = []\<rparr> =
     (\<lparr>converted = 0, skipped = 1, errors = 1\<rparr>, \<lparr>host = Posix, fs = music, spawned = []\<rparr>)"
    by code_simp
  have b: "summary (main (mock_ffmpeg [''music/live/e.flac''] [''music/c.flac'']) [1, 0, 1]
     \<lparr>root = [''music''], bitrate = ''192k'', jobs = 2, dry_run = False\<rparr>
     \<lparr>host = Posix, fs = music, spawned = []\<rparr>) =
     Some \<lparr>converted = 2, skipped = 2, errors = 1\<rparr>"
    by code_simp
  from counters_sum_to_total[where ffmpeg = "mock_ffmpeg [''music/live/e.flac''] [''music/c.flac'']"
      and sched = "[1, 0, 1]"
      and a = "\<lparr>root = [''music''], bitrate = ''192k'', jobs = 2, dry_run = False\<rparr>"
      and w = "\<lparr>host = Posix, fs = music, spawned = []\<rparr>"
      and cnt' = "\<lparr>converted = 2, skipped = 2, errors = 1\<rparr>"]
  have "\<exists>found. gather_flac_files Posix music [''music''] = Inr found \<and> (2::nat) + 2 + 1 = length found"
    using b by simp blast
  with a b show ?thesis by blast
qed

text \<open>
  C7. Exactly one outcome per task. Every tuple \<^verbatim>\<open>convert_file\<close> can return has exactly
  one true component; the loop counts a future that raised as an error; and every result the
  pool delivers counts as one of the three outcomes.
\<close>

theorem exactly_one_outcome:
  "(returns (convert_file flac_path rate dry) (c, s, e) \<longrightarrow>
      (c \<and> \<not> s \<and> \<not> e) \<or> (\<not> c \<and> s \<and> \<not> e) \<or> (\<not> c \<and> \<not> s \<and> e)) \<and>
   tally (Inl exc) cnt = cnt\<lparr>errors := errors cnt + 1\<rparr> \<and>
   classify (Inl exc) = Some Errored \<and>
   (\<forall>(flac, result) \<in> set (finished (run_pool ffmpeg max_workers sched
        \<lparr>pending = map (\<lambda>flac. (flac, convert_file flac rate dry)) flac_list,
         finished = [], state = w\<rparr>)).
      \<exists>x. classify result = Some x)"
proof -
  have "\<forall>(flac, result) \<in> set (finished (run_pool ffmpeg max_workers sched
        \<lparr>pending = map (\<lambda>flac. (flac, convert_file flac rate dry)) flac_list,
         finished = [], state = w\<rparr>)). classify result \<noteq> None"
    by (rule dispatch_finished(2)) simp
  then show ?thesis
    using convert_file_one_hot[of flac_path rate dry c s e]
    by (auto simp add: tally_def classify_def)
qed

theorem exactly_one_outcome_witness:
  "returns (convert_file [''music'', ''._d.flac''] ''192k'' False) (False, True, False) \<and>
   finished (run_pool missing_ffmpeg 2 [1, 0, 1, 1]
        \<lparr>pending = map (\<lambda>flac. (flac, convert_file flac ''192k'' False))
                     [[''music'', ''._d.flac''], [''music'', ''live'', ''e.flac''], []],
         finished = [], state = \<lparr>host = Posix, fs = music, spawned = []\<rparr>\<rparr>) =
     [([''music'', ''._d.flac''], Inr (False, True, False)),
      ([], Inl ValueError),
      ([''music'', ''live'', ''e.flac''], Inr (False, False, True))] \<and>
   (\<exists>x. classify (Inr (False, True, False)) = Some x) \<and>
   (\<exists>x. classify (Inr (False, False, True)) = Some x) \<and>
   (\<exists>x. classify (Inl ValueError) = Some x)"
proof -
  have a: "returns (convert_file [''music'', ''._d.flac''] ''192k'' False) (False, True, False)"
  proof -
    have "startswith (name [''music'', ''._d.flac'']) ''._''" by code_simp
    then show ?thesis by (simp add: convert_file_sidecar)
  qed
  have b: "finished (run_pool missing_ffmpeg 2 [1, 0, 1, 1]
        \<lparr>pending = map (\<lambda>flac. (flac, convert_file flac ''192k'' False))
                     [[''music'', ''._d.flac''], [''music'', ''live'', ''e.flac''], []],
         finished = [], state = \<lparr>host = Posix, fs = music, spawned = []\<rparr>\<rparr>) =
     [([''music'', ''._d.flac''], Inr (False, True, False)),
      ([], Inl ValueError),
      ([''music'', ''live'', ''e.flac''], Inr (False, False, True))]"
    by code_simp
  from exactly_one_outcome[where flac_path = "[''music'', ''._d.flac'']" and rate = "''192k''"
      and dry = False and c = False and s = True and e = False and exc = ValueError
      and ffmpeg = missing_ffmpeg and max_workers = 2 and sched = "[1, 0, 1, 1]"
      and flac_list = "[[''music'', ''._d.flac''], [''music'', ''live'', ''e.flac''], []]"
      and w = "\<lparr>host = Posix, fs = music, spawned = []\<rparr>"]
  show ?thesis using a unfolding b by simp
qed


subsection \<open>Discovery\<close>

lemma fnmatch_literal:
  "fl = Posix \<Longrightarrow> CHR ''*'' \<notin> set ps \<Longrightarrow> CHR ''?'' \<notin> set ps \<Longrightarrow> fnmatch fl ps s = (s = ps)"
  by (induction fl ps s rule: fnmatch.induct) (auto simp add: same_char_def)

lemma fnmatch_star_literal:
  assumes "CHR ''*'' \<notin> set ps" and "CHR ''?'' \<notin> set ps"
  shows "fnmatch Posix (CHR ''*'' # ps) s = (\<exists>pre. s = pre @ ps)"
proof (induction s)
  case Nil
  then show ?case using assms by (cases ps) (auto simp add: fnmatch_literal)
next
  case (Cons c cs)
  have "(\<exists>pre. c # cs = pre @ ps) = (c # cs = ps \<or> (\<exists>pre. cs = pre @ ps))"
    by (auto simp add: Cons_eq_append_conv)
  then show ?case using Cons assms by (simp add: fnmatch_literal)
qed

lemma fnmatch_flac: "fnmatch Posix ''*.flac'' s = (\<exists>stem. s = stem @ ''.flac'')"
  by (rule fnmatch_star_literal) simp_all

lemma rglob_matches: "rel \<in> set (rglob fl pat t) \<Longrightarrow> rel \<noteq> [] \<and> fnmatch fl pat (last rel)"
proof (induction t arbitrary: rel)
  case File
  then show ?case by simp
next
  case (Link target)
  then show ?case by simp
next
  case (Dir r x es)
  from Dir.prems consider
    (here) c n where "(c, n) \<in> set es" "fnmatch fl pat c" "rel = [c]"
  | (below) c n q where "(c, n) \<in> set es" "q \<in> set (rglob fl pat n)" "rel = c # q"
    by (auto split: if_splits)
  then show ?case
  proof cases
    case here
    then show ?thesis by simp
  next
    case below
    then have "q \<noteq> [] \<and> fnmatch fl pat (last q)" using Dir.IH by fastforce
    then show ?thesis using below by simp
  qed
qed

lemma in_rglob_Dir:
  "(c # q \<in> set (rglob fl pat (Dir r x es))) =
     (r \<and> ((q = [] \<and> fnmatch fl pat c \<and> (\<exists>n. (c, n) \<in> set es)) \<or>
           (x \<and> (\<exists>n. (c, n) \<in> set es \<and> q \<in> set (rglob fl pat n)))))"
  by (force simp add: image_iff)

lemma set_rglob:
  "wf_node t \<Longrightarrow> set (rglob fl pat t) = {rel. listed t rel \<and> fnmatch fl pat (last rel)}"
proof (induction t)
  case File
  show ?case by simp
next
  case (Link target)
  show ?case by simp
next
  case (Dir r x es)
  have d: "distinct (map fst es)" and w: "\<And>c n. (c, n) \<in> set es \<Longrightarrow> wf_node n"
    using Dir.prems by force+
  have ih: "\<And>c n. (c, n) \<in> set es \<Longrightarrow>
     set (rglob fl pat n) = {rel. listed n rel \<and> fnmatch fl pat (last rel)}"
    using Dir.IH w by fastforce
  have m: "\<And>c n. (map_of es c = Some n) = ((c, n) \<in> set es)"
    using d by simp
  show ?case
  proof (rule set_eqI)
    fix rel
    show "(rel \<in> set (rglob fl pat (Dir r x es))) =
          (rel \<in> {rel. listed (Dir r x es) rel \<and> fnmatch fl pat (last rel)})"
    proof (cases rel)
      case Nil
      then show ?thesis using rglob_matches[of "[]" fl pat "Dir r x es"] by auto
    next
      case (Cons c q)
      show ?thesis
      proof (cases "map_of es c")
        case None
        then have no: "\<And>n. (c, n) \<notin> set es" using m by force
        then have "c \<notin> fst ` set es" by force
        then show ?thesis unfolding Cons in_rglob_Dir using no None by (cases q) simp_all
      next
        case (Some n)
        then have cn: "(c, n) \<in> set es" using m by simp
        have uniq: "n' = n" if "(c, n') \<in> set es" for n'
        proof -
          from that have "map_of es c = Some n'" using m by blast
          with Some show ?thesis by simp
        qed
        have ex: "(\<exists>n'. (c, n') \<in> set es \<and> P n') = P n" for P
          using cn uniq by blast
        have here: "c \<in> fst ` set es" using cn by force
        have "(rel \<in> set (rglob fl pat (Dir r x es))) =
              (r \<and> ((q = [] \<and> fnmatch fl pat c) \<or> (x \<and> q \<in> set (rglob fl pat n))))"
          unfolding Cons in_rglob_Dir
          using ex[of "\<lambda>n'. True"] ex[of "\<lambda>n'. q \<in> set (rglob fl pat n')"]
          by simp
        also have "\<dots> = (r \<and> ((q = [] \<and> fnmatch fl pat c) \<or>
              (x \<and> listed n q \<and> fnmatch fl pat (last q))))"
          using ih[OF cn] by simp
        also have "\<dots> = (listed (Dir r x es) rel \<and> fnmatch fl pat (last rel))"
        proof (cases q)
          case Nil
          then show ?thesis using Cons here by auto
        next
          case (Cons d ds)
          then show ?thesis using \<open>rel = c # q\<close> Some by auto
        qed
        finally show ?thesis by simp
      qed
    qed
  qed
qed

lemma wf_stat:
  "wf_node base \<Longrightarrow> wf_node cur \<Longrightarrow> stat fuel base cur p = Inr (Some n) \<Longrightarrow> wf_node n"
proof (induction fuel base cur p rule: stat.induct)
  case (6 fuel base r x es c cs)
  from "6.prems"(3) have x: x by (simp split: if_splits)
  with "6.prems"(3) obtain m where m: "map_of es c = Some m" "stat fuel base m cs = Inr (Some n)"
    by (cases "map_of es c") simp_all
  then have "(c, m) \<in> set es" by (simp add: map_of_SomeD)
  then have "wf_node m" using "6.prems"(2) by force
  then show ?case using "6.IH"[of m] x m "6.prems"(1) by simp
qed auto

lemma name_append: "rel \<noteq> [] \<Longrightarrow> name (p @ rel) = last rel"
  by (simp add: name_def)

lemma listed_nonempty: "listed t rel \<Longrightarrow> rel \<noteq> []"
  by (cases rel) simp_all

lemma gather_flac_files_root:
  obtains (raises) e where "stat max_links t t dir = Inl e" "gather_flac_files fl t dir = Inl e"
      "is_dir t dir = Inl e"
  | (found) n where "stat max_links t t dir = Inr (Some n)"
      "gather_flac_files fl t dir = Inr (map ((@) dir) (rglob fl ''*.flac'' n))"
  | (missing) "stat max_links t t dir = Inr None" "gather_flac_files fl t dir = Inr []"
      "is_dir t dir = Inr False"
proof (cases "stat max_links t t dir")
  case (Inl e)
  then show ?thesis using raises by (simp add: gather_flac_files_def is_dir_def)
next
  case (Inr res)
  show ?thesis
  proof (cases res)
    case None
    then show ?thesis using Inr missing by (simp add: gather_flac_files_def is_dir_def)
  next
    case (Some n)
    then show ?thesis using Inr found[of n] by (cases n) (simp_all add: gather_flac_files_def)
  qed
qed

lemma set_gather_flac_files:
  assumes "wf_node t" and "stat max_links t t dir = Inr (Some n)"
  shows "\<exists>L. gather_flac_files fl t dir = Inr L \<and>
     set L = {dir @ rel | rel. listed n rel \<and> fnmatch fl ''*.flac'' (name (dir @ rel))}"
proof -
  have w: "wf_node n" using wf_stat[OF assms(1) assms(1) assms(2)] .
  have g: "gather_flac_files fl t dir = Inr (map ((@) dir) (rglob fl ''*.flac'' n))"
    using assms(2) by (cases rule: gather_flac_files_root[of t dir fl]) simp_all
  have "set (map ((@) dir) (rglob fl ''*.flac'' n)) =
      {dir @ rel | rel. listed n rel \<and> fnmatch fl ''*.flac'' (name (dir @ rel))}"
    using set_rglob[OF w, of fl "''*.flac''"] listed_nonempty[of n]
    by (auto simp add: name_append)
  with g show ?thesis by simp
qed

lemma gather_flac_files_matches:
  assumes "gather_flac_files fl t dir = Inr L" and "p \<in> set L"
  shows "fnmatch fl ''*.flac'' (name p)"
proof (cases rule: gather_flac_files_root[of t dir fl])
  case (raises e)
  with assms show ?thesis by simp
next
  case (found n)
  with assms obtain rel where "rel \<in> set (rglob fl ''*.flac'' n)" "p = dir @ rel" by auto
  then show ?thesis using rglob_matches[of rel fl "''*.flac''" n] by (simp add: name_append)
next
  case missing
  with assms show ?thesis by simp
qed

lemma first_split_unique:
  "x \<notin> set a \<Longrightarrow> x \<notin> set a' \<Longrightarrow> a @ x # b = a' @ x # b' \<Longrightarrow> a = a'"
proof (induction a arbitrary: a')
  case Nil
  then show ?case by (cases a') auto
next
  case (Cons y ys)
  then show ?case by (cases a') auto
qed

lemma not_flac_extension:
  assumes "s = stem @ ''.'' @ ext" and "CHR ''.'' \<notin> set ext" and "ext \<noteq> ''flac''"
  shows "\<not> fnmatch Posix ''*.flac'' s"
proof
  assume "fnmatch Posix ''*.flac'' s"
  then obtain pre where "s = pre @ ''.flac''" using fnmatch_flac by blast
  with assms(1) have "stem @ CHR ''.'' # ext = pre @ CHR ''.'' # ''flac''" by simp
  then have "rev (stem @ CHR ''.'' # ext) = rev (pre @ CHR ''.'' # ''flac'')" by (rule arg_cong)
  then have e: "rev ext @ CHR ''.'' # rev stem = rev ''flac'' @ CHR ''.'' # rev pre" by simp
  have "rev ext = rev ''flac''"
  proof (rule first_split_unique[OF _ _ e])
    show "CHR ''.'' \<notin> set (rev ext)" using assms(2) by simp
    show "CHR ''.'' \<notin> set (rev ''flac'')" by simp
  qed
  then have "ext = ''flac''" using rev_is_rev_conv by blast
  with assms(3) show False by simp
qed

text \<open>
  C9, as amended. On a host with POSIX paths discovery is case-sensitive. The pattern
  \<^verbatim>\<open>*.flac\<close> matches exactly the names that end with the lower-case \<^verbatim>\<open>.flac\<close>. In a
  well-formed tree whose root resolves to a node, \<^verbatim>\<open>gather_flac_files\<close> returns exactly the
  paths below the root that a scan reaches and whose name matches. A path whose name has
  any other extension, such as \<^verbatim>\<open>song.FLAC\<close>, is returned from no tree.
\<close>

theorem gather_flac_files_posix:
  "fnmatch Posix ''*.flac'' s = (\<exists>stem. s = stem @ ''.flac'') \<and>
   (wf_node t \<and> stat max_links t t dir = Inr (Some n) \<longrightarrow>
      (\<exists>found. gather_flac_files Posix t dir = Inr found \<and>
         set found =
           {dir @ rel | rel. listed n rel \<and> fnmatch Posix ''*.flac'' (name (dir @ rel))})) \<and>
   (gather_flac_files Posix t dir = Inr flac_list \<and>
    name p = stem @ ''.'' @ ext \<and> CHR ''.'' \<notin> set ext \<and> ext \<noteq> ''flac'' \<longrightarrow>
      p \<notin> set flac_list)"
proof (intro conjI impI)
  show "fnmatch Posix ''*.flac'' s = (\<exists>stem. s = stem @ ''.flac'')" by (rule fnmatch_flac)
next
  assume "wf_node t \<and> stat max_links t t dir = Inr (Some n)"
  then show "\<exists>found. gather_flac_files Posix t dir = Inr found \<and>
         set found =
           {dir @ rel | rel. listed n rel \<and> fnmatch Posix ''*.flac'' (name (dir @ rel))}"
    using set_gather_flac_files by blast
next
  assume a: "gather_flac_files Posix t dir = Inr flac_list \<and>
    name p = stem @ ''.'' @ ext \<and> CHR ''.'' \<notin> set ext \<and> ext \<noteq> ''flac''"
  then have "\<not> fnmatch Posix ''*.flac'' (name p)" using not_flac_extension by blast
  then show "p \<notin> set flac_list" using a gather_flac_files_matches by blast
qed

theorem gather_flac_files_posix_witness:
  "wf_node music \<and>
   gather_flac_files Posix music [''music''] =
     Inr [[''music'', ''a.flac''], [''music'', ''b.flac''], [''music'', ''c.flac''],
          [''music'', ''._d.flac''], [''music'', ''live'', ''e.flac'']] \<and>
   name [''music'', ''live'', ''song.FLAC''] = ''song'' @ ''.'' @ ''FLAC'' \<and>
   exists music [''music'', ''live'', ''song.FLAC''] = Inr True \<and>
   (case stat max_links music music [''music''] of
      Inr (Some n) \<Rightarrow> listed n [''live'', ''song.FLAC''] | _ \<Rightarrow> False) \<and>
   [''music'', ''live'', ''song.FLAC''] \<notin>
     set [[''music'', ''a.flac''], [''music'', ''b.flac''], [''music'', ''c.flac''],
          [''music'', ''._d.flac''], [''music'', ''live'', ''e.flac'']]"
proof -
  have a: "wf_node music" by code_simp
  have b: "gather_flac_files Posix music [''music''] =
     Inr [[''music'', ''a.flac''], [''music'', ''b.flac''], [''music'', ''c.flac''],
          [''music'', ''._d.flac''], [''music'', ''live'', ''e.flac'']]" by code_simp
  have c: "name [''music'', ''live'', ''song.FLAC''] = ''song'' @ ''.'' @ ''FLAC''" by code_simp
  have d: "exists music [''music'', ''live'', ''song.FLAC''] = Inr True" by code_simp
  have e: "CHR ''.'' \<notin> set ''FLAC'' \<and> ''FLAC'' \<noteq> ''flac''" by simp
  have f: "case stat max_links music music [''music''] of
      Inr (Some n) \<Rightarrow> listed n [''live'', ''song.FLAC''] | _ \<Rightarrow> False" by code_simp
  from gather_flac_files_posix[where p = "[''music'', ''live'', ''song.FLAC'']"
      and stem = "''song''" and ext = "''FLAC''" and dir = "[''music'']" and t = music
      and flac_list = "[[''music'', ''a.flac''], [''music'', ''b.flac''], [''music'', ''c.flac''],
          [''music'', ''._d.flac''], [''music'', ''live'', ''e.flac'']]"] b c e
  have "[''music'', ''live'', ''song.FLAC''] \<notin>
     set [[''music'', ''a.flac''], [''music'', ''b.flac''], [''music'', ''c.flac''],
          [''music'', ''._d.flac''], [''music'', ''live'', ''e.flac'']]"
    by blast
  with a b c d f show ?thesis by blast
qed

text \<open>
  C9 as stated fails on a host with Windows paths, where \<^verbatim>\<open>rglob\<close> matches the pattern
  without regard to case: \<^verbatim>\<open>song.FLAC\<close> is discovered, and a dry run counts it.
\<close>

theorem gather_flac_files_windows_counterexample:
  "gather_flac_files Windows music [''music''] =
     Inr [[''music'', ''a.flac''], [''music'', ''b.flac''], [''music'', ''c.flac''],
          [''music'', ''._d.flac''], [''music'', ''live'', ''e.flac''],
          [''music'', ''live'', ''song.FLAC'']] \<and>
   summary (main silent_ffmpeg [] \<lparr>root = [''music''], bitrate = ''192k'', jobs = 1, dry_run = True\<rparr>
     \<lparr>host = Windows, fs = music, spawned = []\<rparr>) =
     Some \<lparr>converted = 4, skipped = 2, errors = 0\<rparr> \<and>
   summary (main silent_ffmpeg [] \<lparr>root = [''music''], bitrate = ''192k'', jobs = 1, dry_run = True\<rparr>
     \<lparr>host = Posix, fs = music, spawned = []\<rparr>) =
     Some \<lparr>converted = 3, skipped = 2, errors = 0\<rparr>"
  by code_simp


subsection \<open>The exit status\<close>






subsection \<open>Runs that spawn nothing\<close>

lemma count_by_path:
  assumes "\<forall>(p, r) \<in> set fin. (classify r = Some x) = P p"
    and "mset (map fst fin) = mset L"
  shows "count_outcome x fin = length (filter P L)"
proof -
  have "filter (\<lambda>(flac, result). classify result = Some x) fin = filter (\<lambda>(p, r). P p) fin"
    using assms(1) by (intro filter_cong) auto
  then have "count_outcome x fin = length (filter (\<lambda>(p, r). P p) fin)"
    by (simp add: count_outcome_def)
  also have "\<dots> = length (filter P (map fst fin))"
    by (simp add: filter_map comp_def case_prod_unfold)
  also have "\<dots> = size (filter_mset P (mset (map fst fin)))"
    by (simp only: mset_filter[symmetric] size_mset)
  also have "\<dots> = length (filter P L)"
    unfolding assms(2) by (simp only: mset_filter[symmetric] size_mset)
  finally show ?thesis .
qed

lemma with_suffix_output_of: "name p \<noteq> [] \<Longrightarrow> with_suffix p ''.opus'' = Inr (output_of p)"
  using with_suffix_opus_iff[of p] by (auto simp add: output_of_def)

lemma with_suffix_cover_of: "name p \<noteq> [] \<Longrightarrow> with_suffix p ''.jpg'' = Inr (cover_of p)"
  using with_suffix_jpg_iff[of p] by (auto simp add: cover_of_def)

lemmas convert_file_named = convert_file_tree[OF with_suffix_output_of with_suffix_cover_of]



lemma dispatch_host:
  assumes "dispatch ffmpeg n sched L b d w = (cnt, w')"
  shows "host w' = host w"
proof -
  define pl where "pl = run_pool ffmpeg n sched
             \<lparr>pending = map (\<lambda>flac. (flac, convert_file flac b d)) L, finished = [], state = w\<rparr>"
  have init: "\<And>p. assured ffmpeg (\<lambda>t t'. True) (\<lambda>t t'. True) (\<lambda>r t. True) (convert_file p b d) (fs w)"
    by (rule assured_returns) simp_all
  have "mset (map fst (finished pl)) = mset L \<and>
         (\<forall>(p, r) \<in> set (finished pl). True) \<and> host (state pl) = host w"
    by (rule pool_result[of "\<lambda>p t t'. True" L False "\<lambda>p t t'. True" "\<lambda>w'. host w' = host w" ffmpeg
          "\<lambda>p r t'. True" "\<lambda>p. convert_file p b d" w pl n sched,
          OF _ _ _ _ _ init _ pl_def])
      simp_all
  then show ?thesis using assms unfolding dispatch_def Let_def pl_def[symmetric] by auto
qed

lemma assured_no_spawn:
  assumes "name p \<noteq> []" and "(d \<and> tests_answer t p) \<or> skips t p"
  shows "assured ffmpeg (\<lambda>t t'. t' = t) (\<lambda>t t'. False)
           (\<lambda>r t'. r = Inr (if skips t p then (False, True, False) else (True, False, False)))
           (convert_file p b d) t"
  using assms by (auto simp add: convert_file_named skips_def tests_answer_def split: sum.splits)

lemma no_spawn_dispatch:
  assumes names: "\<forall>p \<in> set L. name p \<noteq> []"
    and quiet: "(d \<and> (\<forall>p \<in> set L. tests_answer (fs w) p)) \<or> (\<forall>p \<in> set L. skips (fs w) p)"
  shows "dispatch ffmpeg n sched L b d w =
     (\<lparr>converted = length (filter (\<lambda>p. \<not> skips (fs w) p) L),
       skipped = length (filter (skips (fs w)) L),
       errors = 0\<rparr>, w)"
proof -
  define pl where "pl = run_pool ffmpeg n sched
             \<lparr>pending = map (\<lambda>flac. (flac, convert_file flac b d)) L, finished = [], state = w\<rparr>"
  define Q where "Q = (\<lambda>p (r :: exn + bool \<times> bool \<times> bool) (t' :: node).
     r = Inr (if skips (fs w) p then (False, True, False) else (True, False, False)))"
  have init: "\<And>p. p \<in> set L \<Longrightarrow>
      assured ffmpeg (\<lambda>t t'. t' = t) (\<lambda>t t'. False) (Q p) (convert_file p b d) (fs w)"
    unfolding Q_def using names quiet by (intro assured_no_spawn) auto
  have res: "mset (map fst (finished pl)) = mset L \<and>
         (\<forall>(p, r) \<in> set (finished pl). Q p r (fs (state pl))) \<and> state pl = w"
    by (rule pool_result[of "\<lambda>p t t'. t' = t" L False "\<lambda>p t t'. False" "\<lambda>w'. w' = w" ffmpeg
          Q "\<lambda>p. convert_file p b d" w pl n sched, OF _ _ _ _ _ init _ pl_def])
      simp_all
  then have ms: "mset (map fst (finished pl)) = mset L"
    and q: "\<forall>(p, r) \<in> set (finished pl).
       r = Inr (if skips (fs w) p then (False, True, False) else (True, False, False))"
    and st: "state pl = w"
    unfolding Q_def by simp_all
  have q': "classify r = Some (if skips (fs w) p then Skipped else Converted)"
    if "(p, r) \<in> set (finished pl)" for p r
  proof -
    from q that have "r = Inr (if skips (fs w) p then (False, True, False) else (True, False, False))"
      by blast
    then show ?thesis by (simp add: classify_def)
  qed
  have c: "count_outcome Converted (finished pl) = length (filter (\<lambda>p. \<not> skips (fs w) p) L)"
  proof (rule count_by_path[OF _ ms], clarify)
    fix p r assume "(p, r) \<in> set (finished pl)"
    from q'[OF this] show "(classify r = Some Converted) = (\<not> skips (fs w) p)" by simp
  qed
  have s: "count_outcome Skipped (finished pl) = length (filter (skips (fs w)) L)"
  proof (rule count_by_path[OF _ ms], clarify)
    fix p r assume "(p, r) \<in> set (finished pl)"
    from q'[OF this] show "(classify r = Some Skipped) = skips (fs w) p" by simp
  qed
  have "count_outcome Errored (finished pl) = length (filter (\<lambda>p. False) L)"
  proof (rule count_by_path[OF _ ms], clarify)
    fix p r assume "(p, r) \<in> set (finished pl)"
    from q'[OF this] show "(classify r = Some Errored) = False" by simp
  qed
  then have e: "count_outcome Errored (finished pl) = 0" by simp
  show ?thesis
    unfolding dispatch_def Let_def pl_def[symmetric] tally_fold st c s e by simp
qed

subsection \<open>Real runs with a tool that keeps to its output\<close>





subsection \<open>Real runs with a tool that removes nothing\<close>

lemma assured_mono:
  assumes n: "name p \<noteq> []"
    and m: "never_removes ffmpeg"
    and l: "leaves_output ffmpeg (audio_cmd p (output_of p) b) (output_of p)"
  shows "assured ffmpeg
           (\<lambda>t t'. \<forall>q. exists t q = Inr True \<longrightarrow> exists t' q = Inr True)
           (\<lambda>t t'. \<forall>q. exists t q = Inr True \<longrightarrow> exists t' q = Inr True)
           (\<lambda>r t'. classify r \<noteq> None \<and> (classify r \<noteq> Some Errored \<longrightarrow> skips t' p))
           (convert_file p b False) t"
proof -
  have m': "\<And>c t q. exists t q = Inr True \<Longrightarrow> exists (snd (ffmpeg c t)) q = Inr True"
    using m by (simp add: never_removes_def)
  have l': "\<And>t. succeeded (fst (ffmpeg (audio_cmd p (output_of p) b) t)) \<Longrightarrow>
      exists (snd (ffmpeg (audio_cmd p (output_of p) b) t)) (output_of p) = Inr True"
    using l by (simp add: leaves_output_def)
  have snd_eq: "\<And>c t r t'. ffmpeg c t = (r, t') \<Longrightarrow> t' = snd (ffmpeg c t) \<and> r = fst (ffmpeg c t)" by simp
  show ?thesis
  proof (cases "startswith (name p) ''._''")
    case True
    then show ?thesis by (simp add: convert_file_named[OF n n] skips_def classify_def)
  next
    case False
    show ?thesis
      using False
      by (auto simp add: convert_file_named[OF n n] skips_def classify_def
          split: prod.splits sum.splits dest!: snd_eq intro: m' l')
  qed
qed

lemma real_dispatch_mono:
  assumes names: "\<forall>p \<in> set L. name p \<noteq> []"
    and m: "never_removes ffmpeg"
    and l: "\<forall>p \<in> set L. leaves_output ffmpeg (audio_cmd p (output_of p) b) (output_of p)"
    and d: "dispatch ffmpeg n sched L b False w = (cnt, w')"
    and e: "errors cnt = 0"
  shows "\<forall>p \<in> set L. skips (fs w') p"
proof -
  define pl where "pl = run_pool ffmpeg n sched
             \<lparr>pending = map (\<lambda>flac. (flac, convert_file flac b False)) L, finished = [], state = w\<rparr>"
  define R where "R = (\<lambda>(p :: path) t t'. \<forall>q. exists t q = Inr True \<longrightarrow> exists t' q = Inr True)"
  define Q where "Q = (\<lambda>p (r :: exn + bool \<times> bool \<times> bool) t'.
     classify r \<noteq> None \<and> (classify r \<noteq> Some Errored \<longrightarrow> skips t' p))"
  have init: "\<And>p. p \<in> set L \<Longrightarrow> assured ffmpeg (R p) (R p) (Q p) (convert_file p b False) (fs w)"
    unfolding R_def Q_def using names m l by (intro assured_mono) auto
  have res: "mset (map fst (finished pl)) = mset L \<and>
         (\<forall>(p, r) \<in> set (finished pl). Q p r (fs (state pl))) \<and> True"
    by (rule pool_result[of R L False R "\<lambda>w'. True" ffmpeg Q "\<lambda>p. convert_file p b False" w pl n sched,
          OF _ _ _ _ _ init _ pl_def])
      (simp_all add: R_def)
  then have ms: "mset (map fst (finished pl)) = mset L"
    and q: "\<And>p r. (p, r) \<in> set (finished pl) \<Longrightarrow>
       classify r \<noteq> Some Errored \<longrightarrow> skips (fs (state pl)) p"
    unfolding Q_def by auto
  have cnt: "cnt = foldl (\<lambda>cnt (flac, result). tally result cnt)
            \<lparr>converted = 0, skipped = 0, errors = 0\<rparr> (finished pl)"
    and w': "w' = state pl"
    using d unfolding dispatch_def pl_def by (simp_all add: Let_def)
  have "count_outcome Errored (finished pl) = 0"
    using e unfolding cnt tally_fold by simp
  then have none: "\<And>p r. (p, r) \<in> set (finished pl) \<Longrightarrow> classify r \<noteq> Some Errored"
    by (auto simp add: count_outcome_def filter_empty_conv)
  show ?thesis
  proof
    fix p assume "p \<in> set L"
    then have "p \<in> set (map fst (finished pl))"
      using ms by (metis set_mset_mset)
    then obtain r where r: "(p, r) \<in> set (finished pl)" by auto
    from q[OF r] none[OF r] show "skips (fs w') p" unfolding w' by simp
  qed
qed

lemma gather_flac_files_named:
  assumes "gather_flac_files fl t dir = Inr L" and "p \<in> set L"
  shows "name p \<noteq> []"
proof
  assume "name p = []"
  moreover have "\<not> fnmatch fl ''*.flac'' []" by simp
  ultimately show False using gather_flac_files_matches[OF assms] by simp
qed

lemma gather_flac_files_is_dir:
  assumes "gather_flac_files fl t dir = Inr L" and "L \<noteq> []"
  shows "is_dir t dir = Inr True"
proof (cases rule: gather_flac_files_root[of t dir fl])
  case (raises e)
  with assms show ?thesis by simp
next
  case (found n)
  with assms have "rglob fl ''*.flac'' n \<noteq> []" by auto
  then obtain r x es where "n = Dir r x es" by (cases n) simp_all
  with found show ?thesis by (simp add: is_dir_def)
next
  case missing
  with assms show ?thesis by simp
qed


subsection \<open>The stand-in tool keeps to the contract\<close>

lemma map_of_map_entry:
  "map_of (map (\<lambda>(k, v). if k = c then (k, g v) else (k, v)) es) x =
     (if x = c then map_option g (map_of es x) else map_of es x)"
  by (induction es) auto

lemma stat_link_free:
  "link_free t \<Longrightarrow> stat fuel b t q = stat fuel' b' t q"
proof (induction t arbitrary: q)
  case File
  then show ?case by (cases q) simp_all
next
  case (Link target)
  then show ?case by simp
next
  case (Dir r x es)
  show ?case
  proof (cases q)
    case Nil
    then show ?thesis by simp
  next
    case (Cons c cs)
    show ?thesis
    proof (cases "map_of es c")
      case None
      then show ?thesis using Cons by simp
    next
      case (Some n)
      then have "(c, n) \<in> set es" by (rule map_of_SomeD)
      then have "stat fuel b n cs = stat fuel' b' n cs"
        using Dir.IH[of "(c, n)" n cs] Dir.prems by force
      then show ?thesis using Cons Some by simp
    qed
  qed
qed


lemma stat_add_file_mono:
  "link_free t \<Longrightarrow> stat fuel b t q = Inr (Some n) \<Longrightarrow>
   \<exists>n'. stat fuel' b' (add_file p t) q = Inr (Some n')"
proof (induction p t arbitrary: q rule: add_file.induct)
  case (1 t)
  then show ?case using stat_link_free[of t fuel b q fuel' b'] by simp
next
  case (2 c r x es)
  show ?case
  proof (cases q)
    case Nil
    then show ?thesis by simp
  next
    case (Cons k ks)
    from "2.prems"(2) Cons have x: x by (simp split: if_splits)
    with "2.prems"(2) Cons obtain m where m: "map_of es k = Some m" "stat fuel b m ks = Inr (Some n)"
      by (cases "map_of es k") simp_all
    then have "(k, m) \<in> set es" by (simp add: map_of_SomeD)
    then have "link_free m" using "2.prems"(1) by force
    from stat_link_free[OF this, of fuel b ks fuel' b'] m(2)
    have "stat fuel' b' m ks = Inr (Some n)" by simp
    with m(1) x Cons show ?thesis by (simp add: map_add_def)
  qed
next
  case (3 c d cs r x es)
  show ?case
  proof (cases q)
    case Nil
    then show ?thesis by simp
  next
    case (Cons k ks)
    from "3.prems"(2) Cons have x: x by (simp split: if_splits)
    with "3.prems"(2) Cons obtain m where m: "map_of es k = Some m" "stat fuel b m ks = Inr (Some n)"
      by (cases "map_of es k") simp_all
    then have in_es: "(k, m) \<in> set es" by (simp add: map_of_SomeD)
    then have lf: "link_free m" using "3.prems"(1) by force
    show ?thesis
    proof (cases "k = c")
      case False
      from stat_link_free[OF lf, of fuel b ks fuel' b'] m(2)
      have "stat fuel' b' m ks = Inr (Some n)" by simp
      with m(1) x Cons False show ?thesis by (simp add: map_of_map_entry)
    next
      case True
      have "\<exists>n'. stat fuel' b' (add_file (d # cs) m) ks = Inr (Some n')"
        using "3.IH"[of "(k, m)" k m ks] in_es True lf m(2) by simp
      then show ?thesis using Cons True m x by (simp add: map_of_map_entry)
    qed
  qed
next
  case (4 c cs)
  then show ?case using stat_link_free[of File fuel b q fuel' b'] by simp
next
  case (5 c cs target)
  then show ?case by simp
qed



lemma exists_add_file_mono:
  assumes "link_free t" and "exists t q = Inr True"
  shows "exists (add_file p t) q = Inr True"
proof -
  from assms(2) obtain n where "stat max_links t t q = Inr (Some n)"
    by (auto simp add: exists_def split: sum.splits option.splits)
  from stat_add_file_mono[OF assms(1) this, of max_links "add_file p t" p]
  show ?thesis by (auto simp add: exists_def)
qed

lemma mock_ffmpeg_snd:
  "snd (mock_ffmpeg nc na cmd t) = t \<or>
   (link_free t \<and> snd (mock_ffmpeg nc na cmd t) = add_file (split_path (last cmd)) t)"
  by (simp add: mock_ffmpeg_def)

lemma mock_never_removes: "never_removes (mock_ffmpeg nc na)"
  unfolding never_removes_def using mock_ffmpeg_snd exists_add_file_mono by metis


lemma mock_leaves_output:
  "split_path (last cmd) = out \<Longrightarrow> leaves_output (mock_ffmpeg nc na) cmd out"
  by (auto simp add: leaves_output_def mock_ffmpeg_def succeeded_def)


subsection \<open>Whole runs\<close>




lemma main_second_run:
  assumes real: "\<not> dry_run a"
    and first: "summary (main ffmpeg sched a w) = Some cnt" and zero: "errors cnt = 0"
    and m: "never_removes ffmpeg"
    and L: "gather_flac_files (host w) (fs w) (root a) = Inr L"
    and l: "\<forall>p \<in> set L. leaves_output ffmpeg (audio_cmd p (output_of p) (bitrate a)) (output_of p)"
    and same: "gather_flac_files (host w) (fs (after (main ffmpeg sched a w))) (root a) = Inr L"
  shows "main ffmpeg' sched' (a\<lparr>dry_run := d\<rparr>) (after (main ffmpeg sched a w)) =
     \<lparr>ending = Returned, discovered = Some L,
      summary = Some \<lparr>converted = 0, skipped = length L, errors = 0\<rparr>,
      after = after (main ffmpeg sched a w)\<rparr>"
proof -
  let ?w = "after (main ffmpeg sched a w)"
  let ?a = "a\<lparr>dry_run := d\<rparr>"
  have names: "\<forall>p \<in> set L. name p \<noteq> []" using gather_flac_files_named[OF L] by blast
  from first obtain L' w' where L': "gather_flac_files (host w) (fs w) (root a) = Inr L'"
    and g: "L' \<noteq> []" and j: "0 < jobs a"
    and dw: "dispatch ffmpeg (nat (jobs a)) sched L' (bitrate a) (dry_run a) w = (cnt, w')"
    and mn: "main ffmpeg sched a w =
           \<lparr>ending = (if 0 < errors cnt then SysExit 1 else Returned),
            discovered = Some L', summary = Some cnt, after = w'\<rparr>"
    by (rule main_summary_dispatch)
  from L L' have LL: "L' = L" by simp
  have w': "?w = w'" using mn by simp
  have dw': "dispatch ffmpeg (nat (jobs a)) sched L (bitrate a) False w = (cnt, w')"
    using dw LL real by simp
  have h: "host ?w = host w" using dispatch_host[OF dw'] w' by simp
  have sk: "\<forall>p \<in> set L. skips (fs ?w) p"
    using real_dispatch_mono[OF names m l dw' zero] w' by simp
  have g2: "gather_flac_files (host ?w) (fs ?w) (root ?a) = Inr L" using same h by simp
  have ne: "L \<noteq> []" using g LL by simp
  have d2: "is_dir (fs ?w) (root ?a) = Inr True" using gather_flac_files_is_dir[OF g2 ne] .
  have "dispatch ffmpeg' (nat (jobs ?a)) sched' L (bitrate ?a) (dry_run ?a) ?w =
     (\<lparr>converted = length (filter (\<lambda>p. \<not> skips (fs ?w) p) L),
       skipped = length (filter (skips (fs ?w)) L), errors = 0\<rparr>, ?w)"
    using names sk by (intro no_spawn_dispatch) simp_all
  moreover have "filter (\<lambda>p. \<not> skips (fs ?w) p) L = []" using sk by (simp add: filter_empty_conv)
  moreover have "filter (skips (fs ?w)) L = L" using sk by (simp add: filter_id_conv)
  ultimately have disp: "dispatch ffmpeg' (nat (jobs ?a)) sched' L (bitrate ?a) (dry_run ?a) ?w =
     (\<lparr>converted = 0, skipped = length L, errors = 0\<rparr>, ?w)" by simp
  have j2: "0 < jobs ?a" using j by simp
  from main_dispatch[OF d2 g2 ne j2 disp] show ?thesis by simp
qed




text \<open>
  C4, as amended. After a real run that counted no error, with a tool that removes no path
  and leaves the output of every audio command that succeeds, and with the same files
  discovered again, a second run (dry or real, with any tool and schedule) converts nothing,
  skips every file, spawns nothing and returns normally.
\<close>

theorem second_run_skips_everything:
  assumes "\<not> dry_run a"
    and "summary (main ffmpeg sched a w) = Some cnt" and "errors cnt = 0"
    and "never_removes ffmpeg"
    and "gather_flac_files (host w) (fs w) (root a) = Inr flac_list"
    and "\<forall>p \<in> set flac_list.
           leaves_output ffmpeg (audio_cmd p (output_of p) (bitrate a)) (output_of p)"
    and "gather_flac_files (host w) (fs (after (main ffmpeg sched a w))) (root a) = Inr flac_list"
  shows "main ffmpeg' sched' (a\<lparr>dry_run := d\<rparr>) (after (main ffmpeg sched a w)) =
     \<lparr>ending = Returned,
      discovered = Some flac_list,
      summary = Some \<lparr>converted = 0, skipped = length flac_list, errors = 0\<rparr>,
      after = after (main ffmpeg sched a w)\<rparr>"
  using assms by (rule main_second_run)

theorem second_run_skips_everything_witness:
  "\<not> dry_run \<lparr>root = [''music''], bitrate = ''192k'', jobs = 2, dry_run = False\<rparr> \<and>
   summary (main (mock_ffmpeg [''music/live/e.flac''] []) [1, 0, 0, 1]
     \<lparr>root = [''music''], bitrate = ''192k'', jobs = 2, dry_run = False\<rparr>
     \<lparr>host = Posix, fs = music, spawned = []\<rparr>) =
     Some \<lparr>converted = 3, skipped = 2, errors = 0\<rparr> \<and>
   summary (main missing_ffmpeg [0, 1]
     \<lparr>root = [''music''], bitrate = ''192k'', jobs = 2, dry_run = False\<rparr>
     (after (main (mock_ffmpeg [''music/live/e.flac''] []) [1, 0, 0, 1]
        \<lparr>root = [''music''], bitrate = ''192k'', jobs = 2, dry_run = False\<rparr>
        \<lparr>host = Posix, fs = music, spawned = []\<rparr>))) =
     Some \<lparr>converted = 0, skipped = 5, errors = 0\<rparr>"
proof -
  let ?M = "mock_ffmpeg [''music/live/e.flac''] []"
  let ?A = "\<lparr>root = [''music''], bitrate = ''192k'', jobs = 2, dry_run = False\<rparr>"
  let ?W = "\<lparr>host = Posix, fs = music, spawned = []\<rparr>"
  let ?L = "[[''music'', ''a.flac''], [''music'', ''b.flac''], [''music'', ''c.flac''],
             [''music'', ''._d.flac''], [''music'', ''live'', ''e.flac'']]"
  have a: "\<not> dry_run ?A" by simp
  have s: "summary (main ?M [1, 0, 0, 1] ?A ?W) = Some \<lparr>converted = 3, skipped = 2, errors = 0\<rparr>"
    by code_simp
  have z: "errors \<lparr>converted = 3, skipped = 2, errors = 0\<rparr> = 0" by simp
  have g0: "gather_flac_files (host ?W) (fs ?W) (root ?A) = Inr ?L" by code_simp
  have "list_all (\<lambda>p. split_path (last (audio_cmd p (output_of p) (bitrate ?A))) = output_of p) ?L"
    by code_simp
  then have "\<forall>p \<in> set ?L.
          split_path (last (audio_cmd p (output_of p) (bitrate ?A))) = output_of p"
    by (simp only: list_all_iff)
  then have l: "\<forall>p \<in> set ?L.
           leaves_output ?M (audio_cmd p (output_of p) (bitrate ?A)) (output_of p)"
    using mock_leaves_output by blast
  have g: "gather_flac_files (host ?W) (fs (after (main ?M [1, 0, 0, 1] ?A ?W))) (root ?A) = Inr ?L"
    by code_simp
  from second_run_skips_everything[OF a s z mock_never_removes g0 l g, of missing_ffmpeg "[0, 1]" False]
  have "summary (main missing_ffmpeg [0, 1] ?A (after (main ?M [1, 0, 0, 1] ?A ?W))) =
     Some \<lparr>converted = 0, skipped = 5, errors = 0\<rparr>"
    by simp
  with a s show ?thesis by simp
qed

text \<open>
  C4 as stated fails. A dry first run counts no error and produces no output, so a second
  run converts the same files again; and so does a second run after a real one whose tool
  returned 0 without writing its output.
\<close>

theorem second_run_counterexample:
  "summary (main (mock_ffmpeg [] []) []
     \<lparr>root = [''music''], bitrate = ''192k'', jobs = 1, dry_run = True\<rparr>
     \<lparr>host = Posix, fs = music, spawned = []\<rparr>) =
     Some \<lparr>converted = 3, skipped = 2, errors = 0\<rparr> \<and>
   after (main (mock_ffmpeg [] []) []
     \<lparr>root = [''music''], bitrate = ''192k'', jobs = 1, dry_run = True\<rparr>
     \<lparr>host = Posix, fs = music, spawned = []\<rparr>) =
     \<lparr>host = Posix, fs = music, spawned = []\<rparr> \<and>
   summary (main (mock_ffmpeg [] []) []
     \<lparr>root = [''music''], bitrate = ''192k'', jobs = 1, dry_run = True\<rparr>
     (after (main (mock_ffmpeg [] []) []
        \<lparr>root = [''music''], bitrate = ''192k'', jobs = 1, dry_run = True\<rparr>
        \<lparr>host = Posix, fs = music, spawned = []\<rparr>))) =
     Some \<lparr>converted = 3, skipped = 2, errors = 0\<rparr> \<and>
   summary (main silent_ffmpeg []
     \<lparr>root = [''music''], bitrate = ''192k'', jobs = 1, dry_run = False\<rparr>
     \<lparr>host = Posix, fs = music, spawned = []\<rparr>) =
     Some \<lparr>converted = 3, skipped = 2, errors = 0\<rparr> \<and>
   summary (main silent_ffmpeg []
     \<lparr>root = [''music''], bitrate = ''192k'', jobs = 1, dry_run = False\<rparr>
     (after (main silent_ffmpeg []
        \<lparr>root = [''music''], bitrate = ''192k'', jobs = 1, dry_run = False\<rparr>
        \<lparr>host = Posix, fs = music, spawned = []\<rparr>))) =
     Some \<lparr>converted = 3, skipped = 2, errors = 0\<rparr>"
  by code_simp

end
